theory Spec2Isabelle
  imports Complex_Main "HOL-Library.Multiset"
begin

section \<open>Data model\<close>

text \<open>
  The processors work on Python dictionaries used as records. A key that is missing from
  the dictionary is the value \<open>None\<close> of the field; \<open>repo['k']\<close> on a missing key raises
  \<open>KeyError\<close>, \<open>repo.get('k', d)\<close> gives \<open>d\<close>. Only the keys that the aggregator and the
  ranker read or write are fields here. Python's \<open>int\<close> is \<open>int\<close>. A Python \<open>float\<close> is a
  \<open>real\<close>; where a function computes with floats (the score), the definition computes in
  exact arithmetic, without the rounding of double precision; what is proved of the ranking
  is proved for every scoring function. A Python \<open>str\<close> is a \<open>string\<close>.

  The processors update the dictionaries in place. The collectors build one fresh
  dictionary for every repository, so the dictionaries of a list are different objects and
  an update of one is not seen through another: updates are modelled on values.
\<close>

datatype error = KeyError string | ValueError

record repo =
  platform :: "string option"
  repo_url :: "string option"
  name :: "string option"
  owner :: "string option"
  stars :: "int option"
  age_days :: "int option"
  recent_commits_count :: "int option"
  reddit_mentions :: "int option"
  reddit_upvotes :: "int option"
  recent_mentions_30d :: "int option"
  web_mentions :: "int option"
  star_velocity_30d :: "real option"
  tier :: "string option"
  composite_score :: "real option"
  rank_in_tier :: "int option"

text \<open>\<open>d.get(k, default)\<close>\<close>

definition dict_get :: "'a option \<Rightarrow> 'a \<Rightarrow> 'a" where
  "dict_get v d = (case v of None \<Rightarrow> d | Some x \<Rightarrow> x)"

section \<open>scripts/config.py\<close>

definition TIER_AGE_THRESHOLDS_new :: int where
  "TIER_AGE_THRESHOLDS_new = 90"

definition TIER_AGE_THRESHOLDS_rising :: int where
  "TIER_AGE_THRESHOLDS_rising = 365"

definition GROWTH_THRESHOLDS_star_velocity_per_month :: real where
  "GROWTH_THRESHOLDS_star_velocity_per_month = 10"

text \<open>The weight tables are dictionaries from factor name to weight, in the order written.\<close>

definition ESTABLISHED_WEIGHTS :: "(string \<times> real) list" where
  "ESTABLISHED_WEIGHTS =
     [(''stars'', 6 / 10), (''recent_activity'', 2 / 10), (''social_signals'', 2 / 10)]"

definition RISING_WEIGHTS :: "(string \<times> real) list" where
  "RISING_WEIGHTS =
     [(''growth_rate'', 4 / 10), (''stars'', 3 / 10), (''recent_activity'', 2 / 10),
      (''social_signals'', 1 / 10)]"

definition NEW_WEIGHTS :: "(string \<times> real) list" where
  "NEW_WEIGHTS =
     [(''recent_activity'', 5 / 10), (''stars'', 3 / 10), (''social_signals'', 2 / 10)]"

section \<open>scripts/processors/ranker.py: scoring\<close>

text \<open>
  The two functions of the score in exact arithmetic. The code computes them in double
  precision, where a quotient of logarithms strictly inside the interval can round to 0.0
  or to 1.0; the clamp keeps every result between 0 and 1 in either arithmetic.
\<close>

definition log_scale :: "real \<Rightarrow> real \<Rightarrow> real \<Rightarrow> real" where
  "log_scale val min_val max_val =
     (if val \<le> min_val then 0
      else if val \<ge> max_val then 1
      else
        let shifted_val = val - min_val + 1;
            shifted_max = max_val - min_val + 1;
            normalized = ln shifted_val / ln shifted_max
        in max 0 (min 1 normalized))"

definition calculate_score :: "repo \<Rightarrow> (string \<times> real) list \<Rightarrow> string \<Rightarrow> real" where
  "calculate_score repo weights tier_name =
     (let score = 0;
          score = (case map_of weights ''stars'' of
                     None \<Rightarrow> score
                   | Some w \<Rightarrow>
                       score + log_scale (real_of_int (dict_get (stars repo) 0)) 20 10000 * w);
          score = (case map_of weights ''recent_activity'' of
                     None \<Rightarrow> score
                   | Some w \<Rightarrow>
                       score
                       + log_scale (real_of_int (dict_get (recent_commits_count repo) 0)) 1 100 * w);
          score = (case map_of weights ''social_signals'' of
                     None \<Rightarrow> score
                   | Some w \<Rightarrow>
                       score
                       + (log_scale (real_of_int (dict_get (reddit_mentions repo) 0)) 0 50 * (4 / 10)
                          + log_scale (real_of_int (dict_get (reddit_upvotes repo) 0)) 0 500 * (4 / 10)
                          + log_scale (real_of_int (dict_get (web_mentions repo) 0)) 0 10 * (2 / 10))
                         * w);
          score = (case map_of weights ''growth_rate'' of
                     None \<Rightarrow> score
                   | Some w \<Rightarrow>
                       score
                       + (log_scale (dict_get (star_velocity_30d repo) 0) 0 100 * (6 / 10)
                          + log_scale (real_of_int (dict_get (recent_mentions_30d repo) 0)) 0 20
                            * (4 / 10))
                         * w)
      in score)"

section \<open>scripts/processors/ranker.py: ranking within a tier\<close>

definition select_weights :: "string \<Rightarrow> (string \<times> real) list" where
  "select_weights tier_name =
     (if tier_name = ''established'' then ESTABLISHED_WEIGHTS
      else if tier_name = ''rising'' then RISING_WEIGHTS
      else NEW_WEIGHTS)"

text \<open>
  The sort key \<open>lambda r: r['composite_score']\<close>. The loop before the sort stores a score
  in every record, so the lookup cannot fail there; the default is never used.
\<close>

definition score_key :: "repo \<Rightarrow> real" where
  "score_key r = dict_get (composite_score r) 0"

text \<open>
  \<open>sorted(xs, key=k, reverse=True)\<close>: descending by key, and stable (elements with equal
  keys keep their input order, also under \<open>reverse=True\<close>).
\<close>

definition sorted_reverse :: "('a \<Rightarrow> real) \<Rightarrow> 'a list \<Rightarrow> 'a list" where
  "sorted_reverse k xs = sort_key (\<lambda>x. - k x) xs"

text \<open>\<open>for i, repo in enumerate(repos_sorted): repo['rank_in_tier'] = i + 1\<close>\<close>

fun assign_ranks :: "nat \<Rightarrow> repo list \<Rightarrow> repo list" where
  "assign_ranks i [] = []"
| "assign_ranks i (repo # rest) =
     repo\<lparr>rank_in_tier := Some (int i + 1)\<rparr> # assign_ranks (Suc i) rest"

definition rank_tier :: "repo list \<Rightarrow> string \<Rightarrow> repo list" where
  "rank_tier repos tier_name =
     (if repos = [] then []
      else
        let weights = select_weights tier_name;
            scored = map (\<lambda>repo. repo\<lparr>composite_score :=
                                         Some (calculate_score repo weights tier_name)\<rparr>) repos;
            repos_sorted = sorted_reverse score_key scored
        in assign_ranks 0 repos_sorted)"

text \<open>
  The same function with the scoring function as an argument: what it does with the scores
  does not depend on how they are computed, in exact arithmetic or in double precision.
\<close>

definition rank_tier_with ::
  "(repo \<Rightarrow> (string \<times> real) list \<Rightarrow> string \<Rightarrow> real) \<Rightarrow> repo list \<Rightarrow> string \<Rightarrow> repo list" where
  "rank_tier_with score repos tier_name =
     (if repos = [] then []
      else
        let weights = select_weights tier_name;
            scored = map (\<lambda>repo. repo\<lparr>composite_score :=
                                         Some (score repo weights tier_name)\<rparr>) repos;
            repos_sorted = sorted_reverse score_key scored
        in assign_ranks 0 repos_sorted)"

section \<open>scripts/processors/ranker.py: classification\<close>

definition has_growth_signals :: "repo \<Rightarrow> bool" where
  "has_growth_signals repo =
     (if dict_get (star_velocity_30d repo) 0 > GROWTH_THRESHOLDS_star_velocity_per_month then True
      else if dict_get (recent_mentions_30d repo) 0 > 0 then True
      else if dict_get (web_mentions repo) 0 > 0 then True
      else if dict_get (recent_commits_count repo) 0 > 10 then True
      else False)"

text \<open>
  The classification loop, with the three lists it appends to. The record is appended by
  reference and its \<open>tier\<close> is stored afterwards, so the list holds the record with the tier.
\<close>

fun classify_loop ::
  "repo list \<Rightarrow> repo list \<times> repo list \<times> repo list
     \<Rightarrow> error + (repo list \<times> repo list \<times> repo list)" where
  "classify_loop [] acc = Inr acc"
| "classify_loop (repo # rest) (established, rising, new) =
     (case age_days repo of
        None \<Rightarrow> Inl (KeyError ''age_days'')
      | Some age \<Rightarrow>
          if age < TIER_AGE_THRESHOLDS_new then
            classify_loop rest (established, rising, new @ [repo\<lparr>tier := Some ''new''\<rparr>])
          else if age < TIER_AGE_THRESHOLDS_rising then
            (if has_growth_signals repo then
               classify_loop rest (established, rising @ [repo\<lparr>tier := Some ''rising''\<rparr>], new)
             else
               classify_loop rest
                 (established @ [repo\<lparr>tier := Some ''established''\<rparr>], rising, new))
          else
            classify_loop rest (established @ [repo\<lparr>tier := Some ''established''\<rparr>], rising, new))"

definition classify_and_rank ::
  "repo list \<Rightarrow> error + (repo list \<times> repo list \<times> repo list)" where
  "classify_and_rank repositories =
     (case classify_loop repositories ([], [], []) of
        Inl e \<Rightarrow> Inl e
      | Inr (established, rising, new) \<Rightarrow>
          Inr (rank_tier established ''established'',
               rank_tier rising ''rising'',
               rank_tier new ''new''))"

section \<open>scripts/processors/aggregator.py\<close>

text \<open>
  \<open>str.lower\<close> is Python's own, Unicode-aware function and not code of the repository: it is
  the argument \<open>lower\<close> of every function that calls it, and what is proved holds for every
  function on strings in its place.

  \<open>f"{repo['owner'].lower()}/{repo['name'].lower()}"\<close>
\<close>

definition repo_key :: "(string \<Rightarrow> string) \<Rightarrow> repo \<Rightarrow> error + string" where
  "repo_key lower repo =
     (case owner repo of
        None \<Rightarrow> Inl (KeyError ''owner'')
      | Some ow \<Rightarrow>
          (case name repo of
             None \<Rightarrow> Inl (KeyError ''name'')
           | Some nm \<Rightarrow> Inr (lower ow @ ''/'' @ lower nm)))"

text \<open>
  \<open>repo_groups\<close> is a dictionary, which iterates in the order its keys were first
  inserted: an association list with new keys added at the end.
\<close>

fun add_to_group ::
  "string \<Rightarrow> repo \<Rightarrow> (string \<times> repo list) list \<Rightarrow> (string \<times> repo list) list" where
  "add_to_group key repo [] = [(key, [repo])]"
| "add_to_group key repo ((k, grp) # rest) =
     (if k = key then (k, grp @ [repo]) # rest else (k, grp) # add_to_group key repo rest)"

fun build_groups ::
  "(string \<Rightarrow> string) \<Rightarrow> repo list \<Rightarrow> (string \<times> repo list) list
     \<Rightarrow> error + (string \<times> repo list) list" where
  "build_groups lower [] repo_groups = Inr repo_groups"
| "build_groups lower (repo # rest) repo_groups =
     (case repo_key lower repo of
        Inl e \<Rightarrow> Inl e
      | Inr key \<Rightarrow> build_groups lower rest (add_to_group key repo repo_groups))"

text \<open>
  \<open>max(group, key=lambda r: r['stars'])\<close>: the key of every member is read, and a later
  member replaces the best one only when its key is strictly greater.
\<close>

fun max_loop :: "repo \<Rightarrow> int \<Rightarrow> repo list \<Rightarrow> error + repo" where
  "max_loop best best_key [] = Inr best"
| "max_loop best best_key (r # rest) =
     (case stars r of
        None \<Rightarrow> Inl (KeyError ''stars'')
      | Some s \<Rightarrow> if s > best_key then max_loop r s rest else max_loop best best_key rest)"

fun max_by_stars :: "repo list \<Rightarrow> error + repo" where
  "max_by_stars [] = Inl ValueError"
| "max_by_stars (r # rest) =
     (case stars r of
        None \<Rightarrow> Inl (KeyError ''stars'')
      | Some s \<Rightarrow> max_loop r s rest)"

text \<open>
  One group: a single member is kept as it is; otherwise the best member is chosen, and
  the log line reads its \<open>platform\<close> and \<open>stars\<close>.
\<close>

definition select_group :: "repo list \<Rightarrow> error + repo" where
  "select_group grp =
     (if length grp = 1 then Inr (hd grp)
      else
        (case max_by_stars grp of
           Inl e \<Rightarrow> Inl e
         | Inr best_repo \<Rightarrow>
             (case platform best_repo of
                None \<Rightarrow> Inl (KeyError ''platform'')
              | Some p \<Rightarrow> Inr best_repo)))"

fun select_groups :: "(string \<times> repo list) list \<Rightarrow> repo list \<Rightarrow> error + repo list" where
  "select_groups [] deduplicated = Inr deduplicated"
| "select_groups ((key, grp) # rest) deduplicated =
     (case select_group grp of
        Inl e \<Rightarrow> Inl e
      | Inr r \<Rightarrow> select_groups rest (deduplicated @ [r]))"

definition deduplicate_repos :: "(string \<Rightarrow> string) \<Rightarrow> repo list \<Rightarrow> error + repo list" where
  "deduplicate_repos lower repos =
     (case build_groups lower repos [] of
        Inl e \<Rightarrow> Inl e
      | Inr repo_groups \<Rightarrow> select_groups repo_groups [])"

text \<open>
  The social-signal dictionaries map a repository URL to a dictionary of counts.
\<close>

record reddit_metrics =
  rm_reddit_mentions :: "int option"
  rm_reddit_upvotes :: "int option"
  rm_recent_mentions_30d :: "int option"

record rss_metrics =
  rs_web_mentions :: "int option"

definition merge_social ::
  "(string \<rightharpoonup> reddit_metrics) \<Rightarrow> (string \<rightharpoonup> rss_metrics) \<Rightarrow> repo \<Rightarrow> error + repo" where
  "merge_social reddit_data rss_data repo =
     (case repo_url repo of
        None \<Rightarrow> Inl (KeyError ''repo_url'')
      | Some url \<Rightarrow>
          let repo = (case reddit_data url of
                        Some m \<Rightarrow>
                          repo\<lparr>reddit_mentions := Some (dict_get (rm_reddit_mentions m) 0),
                               reddit_upvotes := Some (dict_get (rm_reddit_upvotes m) 0),
                               recent_mentions_30d := Some (dict_get (rm_recent_mentions_30d m) 0)\<rparr>
                      | None \<Rightarrow>
                          repo\<lparr>reddit_mentions := Some 0,
                               reddit_upvotes := Some 0,
                               recent_mentions_30d := Some 0\<rparr>);
              repo = (case rss_data url of
                        Some m \<Rightarrow> repo\<lparr>web_mentions := Some (dict_get (rs_web_mentions m) 0)\<rparr>
                      | None \<Rightarrow> repo\<lparr>web_mentions := Some 0\<rparr>)
          in Inr repo)"

fun merge_loop ::
  "(string \<rightharpoonup> reddit_metrics) \<Rightarrow> (string \<rightharpoonup> rss_metrics) \<Rightarrow> repo list \<Rightarrow> error + repo list" where
  "merge_loop reddit_data rss_data [] = Inr []"
| "merge_loop reddit_data rss_data (repo # rest) =
     (case merge_social reddit_data rss_data repo of
        Inl e \<Rightarrow> Inl e
      | Inr repo' \<Rightarrow>
          (case merge_loop reddit_data rss_data rest of
             Inl e \<Rightarrow> Inl e
           | Inr rest' \<Rightarrow> Inr (repo' # rest')))"

definition aggregate_data ::
  "(string \<Rightarrow> string) \<Rightarrow> repo list \<Rightarrow> repo list \<Rightarrow> repo list
     \<Rightarrow> (string \<rightharpoonup> reddit_metrics) \<Rightarrow> (string \<rightharpoonup> rss_metrics) \<Rightarrow> error + repo list" where
  "aggregate_data lower github_repos gitlab_repos bitbucket_repos reddit_data rss_data =
     (let all_repos = github_repos @ gitlab_repos @ bitbucket_repos in
      case deduplicate_repos lower all_repos of
        Inl e \<Rightarrow> Inl e
      | Inr deduplicated \<Rightarrow> merge_loop reddit_data rss_data deduplicated)"

section \<open>Auxiliary definitions for the statements\<close>

text \<open>The sum of the weights of a weight table.\<close>

definition weight_sum :: "(string \<times> real) list \<Rightarrow> real" where
  "weight_sum weights = sum_list (map snd weights)"

text \<open>A record as the GitHub collector builds it, before aggregation.\<close>

definition example_repo :: repo where
  "example_repo =
     \<lparr>platform = Some ''github'', repo_url = Some ''https://github.com/xbmc/xbmc'',
      name = Some ''xbmc'', owner = Some ''XBMC'', stars = Some 500, age_days = Some 400,
      recent_commits_count = Some 5, reddit_mentions = None, reddit_upvotes = None,
      recent_mentions_30d = None, web_mentions = None, star_velocity_30d = None,
      tier = None, composite_score = None, rank_in_tier = None\<rparr>"

text \<open>A younger project, as the GitLab collector builds it.\<close>

definition example_new_repo :: repo where
  "example_new_repo =
     \<lparr>platform = Some ''gitlab'', repo_url = Some ''https://gitlab.com/kodi/skin'',
      name = Some ''skin'', owner = Some ''kodi'', stars = Some 40, age_days = Some 30,
      recent_commits_count = Some 0, reddit_mentions = None, reddit_upvotes = None,
      recent_mentions_30d = None, web_mentions = None, star_velocity_30d = None,
      tier = None, composite_score = None, rank_in_tier = None\<rparr>"

text \<open>
  Two projects of 200 days, one with a recent mention and one without any growth signal.
\<close>

definition example_rising_repo :: repo where
  "example_rising_repo =
     \<lparr>platform = Some ''github'', repo_url = Some ''https://github.com/kodi/trakt'',
      name = Some ''trakt'', owner = Some ''kodi'', stars = Some 120, age_days = Some 200,
      recent_commits_count = Some 3, reddit_mentions = Some 1, reddit_upvotes = Some 4,
      recent_mentions_30d = Some 1, web_mentions = Some 0, star_velocity_30d = Some 0,
      tier = None, composite_score = None, rank_in_tier = None\<rparr>"

definition example_quiet_repo :: repo where
  "example_quiet_repo =
     \<lparr>platform = Some ''github'', repo_url = Some ''https://github.com/kodi/weather'',
      name = Some ''weather'', owner = Some ''kodi'', stars = Some 60, age_days = Some 200,
      recent_commits_count = Some 10, reddit_mentions = Some 0, reddit_upvotes = Some 0,
      recent_mentions_30d = Some 0, web_mentions = Some 0, star_velocity_30d = Some 10,
      tier = None, composite_score = None, rank_in_tier = None\<rparr>"

text \<open>
  Two new projects whose scores under the weights of the new tier are 0 and 0.5: one with
  nothing above the lower calibration values, one with 100 recent commits.
\<close>

definition example_idle_repo :: repo where
  "example_idle_repo =
     \<lparr>platform = Some ''github'', repo_url = Some ''https://github.com/kodi/idle'',
      name = Some ''idle'', owner = Some ''kodi'', stars = Some 20, age_days = Some 10,
      recent_commits_count = Some 1, reddit_mentions = Some 0, reddit_upvotes = Some 0,
      recent_mentions_30d = Some 0, web_mentions = Some 0, star_velocity_30d = None,
      tier = None, composite_score = None, rank_in_tier = None\<rparr>"

definition example_active_repo :: repo where
  "example_active_repo =
     example_idle_repo\<lparr>repo_url := Some ''https://github.com/kodi/active'',
       name := Some ''active'', recent_commits_count := Some 100\<rparr>"

text \<open>A third new project, whose score is 0 as well.\<close>

definition example_dormant_repo :: repo where
  "example_dormant_repo =
     example_idle_repo\<lparr>repo_url := Some ''https://github.com/kodi/dormant'',
       name := Some ''dormant''\<rparr>"

text \<open>A record without the two fields that the ranker writes.\<close>

definition unranked :: "repo \<Rightarrow> repo" where
  "unranked r = r\<lparr>composite_score := None, rank_in_tier := None\<rparr>"

text \<open>The first loop of \<open>rank_tier\<close> on one record: the score is stored in the record.\<close>

definition scored ::
  "(repo \<Rightarrow> (string \<times> real) list \<Rightarrow> string \<Rightarrow> real) \<Rightarrow> string \<Rightarrow> repo \<Rightarrow> repo" where
  "scored score t r = r\<lparr>composite_score := Some (score r (select_weights t) t)\<rparr>"

text \<open>
  The tier rule in the words of the specification: the growth-signal predicate, and the
  decision by age.
\<close>

definition growth_signal_spec :: "real \<Rightarrow> int \<Rightarrow> int \<Rightarrow> int \<Rightarrow> bool" where
  "growth_signal_spec star_velocity recent_mentions web recent_commits =
     (star_velocity > 10 \<or> recent_mentions > 0 \<or> web > 0 \<or> recent_commits > 10)"

definition tier_by_age_rule :: "int \<Rightarrow> bool \<Rightarrow> string" where
  "tier_by_age_rule age growth =
     (if age < 90 then ''new''
      else if age < 365 then (if growth then ''rising'' else ''established'')
      else ''established'')"

text \<open>The rule on a record: absent signals count as 0; without \<open>age_days\<close> there is no tier.\<close>

definition expected_tier :: "repo \<Rightarrow> string option" where
  "expected_tier r =
     (case age_days r of
        None \<Rightarrow> None
      | Some age \<Rightarrow>
          Some (tier_by_age_rule age
                  (growth_signal_spec (dict_get (star_velocity_30d r) 0)
                     (dict_get (recent_mentions_30d r) 0) (dict_get (web_mentions r) 0)
                     (dict_get (recent_commits_count r) 0))))"

text \<open>A record without the three fields that classification and ranking write.\<close>

definition untiered :: "repo \<Rightarrow> repo" where
  "untiered r = r\<lparr>tier := None, composite_score := None, rank_in_tier := None\<rparr>"

text \<open>The records of a list that the rule sends to tier \<open>t\<close>, with the tier stored.\<close>

definition tier_members :: "string \<Rightarrow> repo list \<Rightarrow> repo list" where
  "tier_members t repos =
     map (\<lambda>r. r\<lparr>tier := Some t\<rparr>) (filter (\<lambda>r. expected_tier r = Some t) repos)"

text \<open>
  The normalized key in the words of the specification: \<open>lower(owner) + "/" + lower(name)\<close>,
  for a record that has an owner and a name.
\<close>

definition normalized_key :: "(string \<Rightarrow> string) \<Rightarrow> repo \<Rightarrow> string option" where
  "normalized_key lower r =
     (case owner r of
        None \<Rightarrow> None
      | Some ow \<Rightarrow> (case name r of None \<Rightarrow> None | Some nm \<Rightarrow> Some (lower ow @ ''/'' @ lower nm)))"

text \<open>The elements of a list in the order of their first occurrence, each once.\<close>

definition first_occurrences :: "'a list \<Rightarrow> 'a list" where
  "first_occurrences xs = rev (remdups (rev xs))"

text \<open>
  The group of a record: the records of the list with its normalized key, in the order of
  the list. A record is duplicated when its group has another member.
\<close>

definition key_group :: "(string \<Rightarrow> string) \<Rightarrow> repo \<Rightarrow> repo list \<Rightarrow> repo list" where
  "key_group lower r repos =
     filter (\<lambda>x. normalized_key lower x = normalized_key lower r) repos"

definition duplicated :: "(string \<Rightarrow> string) \<Rightarrow> repo \<Rightarrow> repo list \<Rightarrow> bool" where
  "duplicated lower r repos = (1 < length (key_group lower r repos))"

text \<open>
  The keys of the records of a list that have one, in the order of the list; the members of
  the group of key \<open>k\<close>; the dictionary \<open>repo_groups\<close> after the first loop over a list.
\<close>

definition repo_keys :: "(string \<Rightarrow> string) \<Rightarrow> repo list \<Rightarrow> string list" where
  "repo_keys lower repos =
     concat (map (\<lambda>r. case repo_key lower r of Inl e \<Rightarrow> [] | Inr k \<Rightarrow> [k]) repos)"

definition group_of :: "(string \<Rightarrow> string) \<Rightarrow> string \<Rightarrow> repo list \<Rightarrow> repo list" where
  "group_of lower k repos = filter (\<lambda>r. repo_key lower r = Inr k) repos"

definition groups_spec :: "(string \<Rightarrow> string) \<Rightarrow> repo list \<Rightarrow> (string \<times> repo list) list" where
  "groups_spec lower repos =
     map (\<lambda>k. (k, group_of lower k repos)) (first_occurrences (repo_keys lower repos))"

text \<open>
  \<open>r\<close> is the member of the group with the greatest \<open>stars\<close>, the first one among equals:
  the members before it have fewer stars, the members after it have no more.
\<close>

definition stars_less :: "repo \<Rightarrow> repo \<Rightarrow> bool" where
  "stars_less p r = (case (stars p, stars r) of (Some a, Some b) \<Rightarrow> a < b | _ \<Rightarrow> False)"

definition stars_leq :: "repo \<Rightarrow> repo \<Rightarrow> bool" where
  "stars_leq p r = (case (stars p, stars r) of (Some a, Some b) \<Rightarrow> a \<le> b | _ \<Rightarrow> False)"

definition first_greatest :: "repo list \<Rightarrow> repo \<Rightarrow> bool" where
  "first_greatest grp r =
     (\<exists>before after. grp = before @ r # after
        \<and> list_all (\<lambda>p. stars_less p r) before \<and> list_all (\<lambda>q. stars_leq q r) after)"

text \<open>The record that deduplication keeps from the group of \<open>r\<close>.\<close>

definition kept :: "(string \<Rightarrow> string) \<Rightarrow> repo \<Rightarrow> repo list \<Rightarrow> bool" where
  "kept lower r repos = first_greatest (key_group lower r repos) r"

text \<open>
  For the examples, whose strings are ASCII: \<open>str.lower\<close> on ASCII strings, where it maps
  \<open>A\<close>..\<open>Z\<close> to \<open>a\<close>..\<open>z\<close> and leaves every other character as it is.
\<close>

definition ascii_lower_char :: "char \<Rightarrow> char" where
  "ascii_lower_char c =
     (let n = (of_char c :: nat) in if 65 \<le> n \<and> n \<le> 90 then char_of (n + 32) else c)"

definition ascii_lower :: "string \<Rightarrow> string" where
  "ascii_lower s = map ascii_lower_char s"

text \<open>The project of \<open>example_repo\<close> as found on a second platform, with fewer stars.\<close>

definition example_duplicate :: repo where
  "example_duplicate =
     example_repo\<lparr>platform := Some ''gitlab'', repo_url := Some ''https://gitlab.com/xbmc/XBMC'',
       name := Some ''XBMC'', owner := Some ''xbmc'', stars := Some 200\<rparr>"

text \<open>A record with 0 stored in every count that is read with the default 0.\<close>

definition with_defaults :: "repo \<Rightarrow> repo" where
  "with_defaults r =
     r\<lparr>stars := Some (dict_get (stars r) 0),
       recent_commits_count := Some (dict_get (recent_commits_count r) 0),
       reddit_mentions := Some (dict_get (reddit_mentions r) 0),
       reddit_upvotes := Some (dict_get (reddit_upvotes r) 0),
       recent_mentions_30d := Some (dict_get (recent_mentions_30d r) 0),
       web_mentions := Some (dict_get (web_mentions r) 0),
       star_velocity_30d := Some (dict_get (star_velocity_30d r) 0)\<rparr>"

text \<open>The two social-signal dictionaries when nothing was collected: \<open>{}\<close>.\<close>

definition no_reddit_data :: "string \<rightharpoonup> reddit_metrics" where
  "no_reddit_data = Map.empty"

definition no_rss_data :: "string \<rightharpoonup> rss_metrics" where
  "no_rss_data = Map.empty"

text \<open>Records that lack a key which the processors read by subscript.\<close>

definition example_no_age :: repo where
  "example_no_age = example_repo\<lparr>age_days := None\<rparr>"

definition example_no_stars :: repo where
  "example_no_stars = example_duplicate\<lparr>stars := None\<rparr>"

definition example_no_owner :: repo where
  "example_no_owner = example_repo\<lparr>owner := None\<rparr>"

text \<open>A record alone in its group, without \<open>stars\<close> and \<open>platform\<close>.\<close>

definition example_lone_repo :: repo where
  "example_lone_repo = example_new_repo\<lparr>stars := None, platform := None\<rparr>"

section \<open>Properties of the score\<close>

lemma log_scale_range: "0 \<le> log_scale val min_val max_val \<and> log_scale val min_val max_val \<le> 1"
  by (simp add: log_scale_def Let_def)

lemma map_of_nonneg:
  assumes "\<forall>(k, w)\<in>set weights. (0::real) \<le> w"
  shows "0 \<le> dict_get (map_of weights k) 0"
proof (cases "map_of weights k")
  case None
  then show ?thesis by (simp add: dict_get_def)
next
  case (Some w)
  then have "(k, w) \<in> set weights" by (rule map_of_SomeD)
  then show ?thesis using assms Some by (auto simp: dict_get_def)
qed

lemma lookup_sum_le:
  assumes "finite K" "\<forall>(k, w)\<in>set weights. (0::real) \<le> w"
  shows "(\<Sum>k\<in>K. dict_get (map_of weights k) 0) \<le> weight_sum weights"
  using assms
proof (induction weights arbitrary: K)
  case Nil
  then show ?case by (simp add: weight_sum_def dict_get_def)
next
  case (Cons p weights)
  obtain k0 v0 where p: "p = (k0, v0)" by (cases p)
  have v0: "0 \<le> v0" and rest: "\<forall>(k, w)\<in>set weights. 0 \<le> w"
    using Cons.prems(2) p by auto
  have fin: "finite (K - {k0})" using Cons.prems(1) by simp
  have ih: "(\<Sum>k\<in>K - {k0}. dict_get (map_of weights k) 0) \<le> weight_sum weights"
    using Cons.IH [OF fin rest] .
  have eq: "(\<Sum>k\<in>K - {k0}. dict_get (map_of (p # weights) k) 0)
              = (\<Sum>k\<in>K - {k0}. dict_get (map_of weights k) 0)"
    by (rule sum.cong) (auto simp: p)
  show ?case
  proof (cases "k0 \<in> K")
    case True
    have "(\<Sum>k\<in>K. dict_get (map_of (p # weights) k) 0)
            = dict_get (map_of (p # weights) k0) 0
              + (\<Sum>k\<in>K - {k0}. dict_get (map_of (p # weights) k) 0)"
      using Cons.prems(1) True by (rule sum.remove)
    also have "dict_get (map_of (p # weights) k0) 0 = v0" by (simp add: p dict_get_def)
    finally show ?thesis using eq ih by (simp add: weight_sum_def p)
  next
    case False
    then have "K - {k0} = K" by auto
    then show ?thesis using eq ih v0 by (simp add: weight_sum_def p)
  qed
qed

lemma weighted_term:
  "(case m of None \<Rightarrow> s | Some w \<Rightarrow> s + x * w) = s + x * dict_get m (0::real)"
  by (simp add: dict_get_def split: option.splits)

lemma score_general:
  assumes nn: "\<forall>(k, w)\<in>set weights. (0::real) \<le> w"
  shows "0 \<le> calculate_score repo weights t \<and> calculate_score repo weights t \<le> weight_sum weights"
proof -
  define a where "a = log_scale (real_of_int (dict_get (stars repo) 0)) 20 10000"
  define b where "b = log_scale (real_of_int (dict_get (recent_commits_count repo) 0)) 1 100"
  define c where "c = log_scale (real_of_int (dict_get (reddit_mentions repo) 0)) 0 50"
  define d where "d = log_scale (real_of_int (dict_get (reddit_upvotes repo) 0)) 0 500"
  define e where "e = log_scale (real_of_int (dict_get (web_mentions repo) 0)) 0 10"
  define f where "f = log_scale (dict_get (star_velocity_30d repo) 0) 0 100"
  define g where "g = log_scale (real_of_int (dict_get (recent_mentions_30d repo) 0)) 0 20"
  define soc where "soc = c * (4 / 10) + d * (4 / 10) + e * (2 / 10)"
  define gro where "gro = f * (6 / 10) + g * (4 / 10)"
  define w1 where "w1 = dict_get (map_of weights ''stars'') 0"
  define w2 where "w2 = dict_get (map_of weights ''recent_activity'') 0"
  define w3 where "w3 = dict_get (map_of weights ''social_signals'') 0"
  define w4 where "w4 = dict_get (map_of weights ''growth_rate'') 0"
  have r: "0 \<le> a" "a \<le> 1" "0 \<le> b" "b \<le> 1" "0 \<le> c" "c \<le> 1" "0 \<le> d" "d \<le> 1" "0 \<le> e" "e \<le> 1"
    "0 \<le> f" "f \<le> 1" "0 \<le> g" "g \<le> 1"
    by (simp_all add: a_def b_def c_def d_def e_def f_def g_def log_scale_range)
  have soc: "0 \<le> soc" "soc \<le> 1" unfolding soc_def using r by argo+
  have gro: "0 \<le> gro" "gro \<le> 1" unfolding gro_def using r by argo+
  have w: "0 \<le> w1" "0 \<le> w2" "0 \<le> w3" "0 \<le> w4"
    unfolding w1_def w2_def w3_def w4_def using nn by (simp_all add: map_of_nonneg)
  have s: "calculate_score repo weights t = a * w1 + b * w2 + soc * w3 + gro * w4"
    by (simp add: calculate_score_def weighted_term a_def b_def c_def d_def e_def f_def g_def
        soc_def gro_def w1_def w2_def w3_def w4_def)
  have lo: "0 \<le> a * w1 + b * w2 + soc * w3 + gro * w4"
    using r soc gro w by simp
  have t: "a * w1 \<le> w1" "b * w2 \<le> w2" "soc * w3 \<le> w3" "gro * w4 \<le> w4"
    using r soc gro w by (simp_all add: mult_left_le_one_le)
  have "(\<Sum>k\<in>{''stars'', ''recent_activity'', ''social_signals'', ''growth_rate''}.
           dict_get (map_of weights k) 0) \<le> weight_sum weights"
    by (rule lookup_sum_le) (simp_all add: nn)
  then have "w1 + w2 + w3 + w4 \<le> weight_sum weights"
    by (simp add: w1_def w2_def w3_def w4_def)
  then show ?thesis unfolding s using lo t by linarith
qed

text \<open>
  C10. The composite score lies between 0 and the sum of the weights of the weight table,
  for every table of non-negative weights, and so for the table of every tier, where the
  sum is 1.
\<close>

theorem calculate_score_bounds:
  "((\<forall>(k, w)\<in>set weights. 0 \<le> w) \<longrightarrow>
      0 \<le> calculate_score repo weights tier_name
      \<and> calculate_score repo weights tier_name \<le> weight_sum weights)
   \<and> 0 \<le> calculate_score repo (select_weights tier_name) tier_name
   \<and> calculate_score repo (select_weights tier_name) tier_name
       \<le> weight_sum (select_weights tier_name)
   \<and> weight_sum (select_weights tier_name) = 1"
proof -
  have w: "weight_sum (select_weights tier_name) = 1"
    by (simp add: weight_sum_def select_weights_def ESTABLISHED_WEIGHTS_def RISING_WEIGHTS_def
        NEW_WEIGHTS_def)
  have n: "\<forall>(k, w)\<in>set (select_weights tier_name). 0 \<le> w"
    by (simp add: select_weights_def ESTABLISHED_WEIGHTS_def RISING_WEIGHTS_def NEW_WEIGHTS_def)
  show ?thesis using w score_general [OF n] score_general [of weights] by auto
qed


theorem calculate_score_bounds_witness:
  "0 \<le> calculate_score example_repo ESTABLISHED_WEIGHTS ''established''
   \<and> calculate_score example_repo ESTABLISHED_WEIGHTS ''established''
       \<le> weight_sum ESTABLISHED_WEIGHTS"
proof -
  have h: "\<forall>(k, w)\<in>set ESTABLISHED_WEIGHTS. 0 \<le> w"
    by (simp add: ESTABLISHED_WEIGHTS_def)
  show ?thesis
    using h calculate_score_bounds [of ESTABLISHED_WEIGHTS example_repo "''established''"]
    by blast
qed

section \<open>Properties of the ranking\<close>

lemma calculate_score_unranked [simp]:
  "calculate_score (r\<lparr>composite_score := s\<rparr>) w t = calculate_score r w t"
  "calculate_score (r\<lparr>rank_in_tier := k\<rparr>) w t = calculate_score r w t"
  "calculate_score (r\<lparr>tier := x\<rparr>) w t = calculate_score r w t"
  by (simp_all add: calculate_score_def weighted_term)

lemma calculate_score_tier_name:
  "calculate_score r w t = calculate_score r w t'"
  by (simp add: calculate_score_def)

lemma length_assign_ranks [simp]: "length (assign_ranks i xs) = length xs"
  by (induction xs arbitrary: i) simp_all

lemma ranks_assign_ranks:
  "map rank_in_tier (assign_ranks i xs) = map (\<lambda>j. Some (int j + 1)) [i..<i + length xs]"
proof (induction xs arbitrary: i)
  case Nil
  then show ?case by simp
next
  case (Cons x xs)
  have "[i..<i + length (x # xs)] = i # [Suc i..<Suc i + length xs]"
    using upt_conv_Cons [of i "i + Suc (length xs)"] by simp
  then show ?case using Cons.IH [of "Suc i"] by simp
qed

lemma assign_ranks_enumerate:
  "assign_ranks i xs = map (\<lambda>(j, r). r\<lparr>rank_in_tier := Some (int j + 1)\<rparr>) (enumerate i xs)"
  by (induction xs arbitrary: i) simp_all

lemma unranked_assign_ranks [simp]:
  "map unranked (assign_ranks i xs) = map unranked xs"
  by (induction xs arbitrary: i) (simp_all add: unranked_def)

lemma sorted_reverse_desc:
  "sorted_wrt (\<lambda>a b. k a \<ge> k b) (sorted_reverse k xs)"
proof -
  have "sorted (map (\<lambda>x. - k x) (sort_key (\<lambda>x. - k x) xs))" by (rule sorted_sort_key)
  then show ?thesis by (simp add: sorted_reverse_def sorted_map)
qed

lemma sorted_reverse_stable:
  "filter (\<lambda>x. k x = c) (sorted_reverse k xs) = filter (\<lambda>x. k x = c) xs"
  using sort_key_stable [of "\<lambda>x. - k x" "- c" xs] by (simp add: sorted_reverse_def)

lemma sorted_reverse_basic [simp]:
  "length (sorted_reverse k xs) = length xs"
  "set (sorted_reverse k xs) = set xs"
  "mset (sorted_reverse k xs) = mset xs"
  by (simp_all add: sorted_reverse_def)

lemma insort_key_map:
  "insort_key f (g x) (map g xs) = map g (insort_key (\<lambda>y. f (g y)) x xs)"
  by (induction xs) simp_all

lemma sorted_reverse_map:
  "sorted_reverse k (map g xs) = map g (sorted_reverse (\<lambda>x. k (g x)) xs)"
  unfolding sorted_reverse_def by (induction xs) (simp_all add: insort_key_map)

lemma score_key_scored [simp]: "score_key (scored score t r) = score r (select_weights t) t"
  by (simp add: score_key_def scored_def dict_get_def)

lemma rank_tier_with_eq:
  "rank_tier_with score repos t
     = assign_ranks 0 (sorted_reverse score_key (map (scored score t) repos))"
proof -
  have "scored score t = (\<lambda>repo. repo\<lparr>composite_score :=
                                 Some (score repo (select_weights t) t)\<rparr>)"
    by (simp add: fun_eq_iff scored_def)
  then show ?thesis by (simp add: rank_tier_with_def Let_def sorted_reverse_def)
qed

lemma rank_tier_with_sorted_input:
  "rank_tier_with score repos t
     = map (\<lambda>(i, r). r\<lparr>composite_score := Some (score r (select_weights t) t),
                        rank_in_tier := Some (int i + 1)\<rparr>)
         (enumerate 0 (sorted_reverse (\<lambda>r. score r (select_weights t) t) repos))"
proof -
  let ?xs = "sorted_reverse (\<lambda>r. score r (select_weights t) t) repos"
  have "rank_tier_with score repos t = assign_ranks 0 (map (scored score t) ?xs)"
    by (simp add: rank_tier_with_eq sorted_reverse_map)
  also have "\<dots> = map (\<lambda>(j, r). r\<lparr>rank_in_tier := Some (int j + 1)\<rparr>)
                      (enumerate 0 (map (scored score t) ?xs))"
    by (rule assign_ranks_enumerate)
  also have "enumerate 0 (map (scored score t) ?xs)
               = map (\<lambda>(j, r). (j, scored score t r)) (enumerate 0 ?xs)"
    by (simp add: enumerate_eq_zip zip_map2 case_prod_beta)
  finally show ?thesis by (simp add: case_prod_beta scored_def comp_def)
qed

lemma sorted_wrt_map_iff: "sorted_wrt P (map f xs) = sorted_wrt (\<lambda>a b. P (f a) (f b)) xs"
  by (induction xs) auto

lemma rank_tier_with_scores:
  "map composite_score (rank_tier_with score repos t)
     = map (\<lambda>r. Some (score r (select_weights t) t))
         (sorted_reverse (\<lambda>r. score r (select_weights t) t) repos)"
proof -
  have "map (\<lambda>x. f (snd x)) (enumerate n ys) = map f ys"
    for f :: "repo \<Rightarrow> real option" and ys n
    by (induction ys arbitrary: n) simp_all
  then show ?thesis
    by (simp add: rank_tier_with_sorted_input case_prod_beta comp_def)
qed

lemma rank_tier_with_stored_sorted:
  "sorted_wrt (\<lambda>a b. \<exists>x y. composite_score a = Some x \<and> composite_score b = Some y \<and> y \<le> x)
     (rank_tier_with score repos t)"
proof -
  let ?k = "\<lambda>r. score r (select_weights t) t"
  have "sorted_wrt (\<lambda>a b. ?k a \<ge> ?k b) (sorted_reverse ?k repos)" by (rule sorted_reverse_desc)
  then have "sorted_wrt (\<lambda>a b. \<exists>x y. a = Some x \<and> b = Some y \<and> y \<le> x)
               (map (\<lambda>r. Some (?k r)) (sorted_reverse ?k repos))"
    by (simp add: sorted_wrt_map_iff)
  then have "sorted_wrt (\<lambda>a b. \<exists>x y. a = Some x \<and> b = Some y \<and> y \<le> x)
               (map composite_score (rank_tier_with score repos t))"
    by (simp only: rank_tier_with_scores)
  then show ?thesis by (simp add: sorted_wrt_map_iff)
qed

lemma rank_tier_with_ranks:
  "map rank_in_tier (rank_tier_with score repos t)
     = map (\<lambda>i. Some (int i)) [1..<Suc (length repos)]"
proof -
  have "map (\<lambda>i. Some (int i)) [1..<Suc (length repos)]
          = map (\<lambda>i. Some (int i)) (map Suc [0..<length repos])"
    by (simp only: map_Suc_upt One_nat_def)
  also have "\<dots> = map (\<lambda>j. Some (int j + 1)) [0..<length repos]"
    by (simp add: comp_def)
  finally show ?thesis
    using ranks_assign_ranks [of 0 "sorted_reverse score_key (map (scored score t) repos)"]
    by (simp add: rank_tier_with_eq)
qed

lemma rank_tier_with_mset:
  "mset (map unranked (rank_tier_with score repos t)) = mset (map unranked repos)"
proof -
  have a: "map unranked (map (scored score t) repos) = map unranked repos"
    by (simp add: comp_def unranked_def scored_def)
  have "mset (map unranked (rank_tier_with score repos t))
          = mset (map unranked (sorted_reverse score_key (map (scored score t) repos)))"
    by (simp add: rank_tier_with_eq)
  also have "\<dots> = image_mset unranked
                      (mset (sorted_reverse score_key (map (scored score t) repos)))"
    by (simp only: mset_map)
  also have "\<dots> = mset (map unranked (map (scored score t) repos))"
    by (simp only: sorted_reverse_basic mset_map)
  finally show ?thesis by (simp only: a)
qed

lemma rank_tier_is_with: "rank_tier repos t = rank_tier_with calculate_score repos t"
  by (simp add: rank_tier_def rank_tier_with_def)

lemma rank_tier_eq:
  "rank_tier repos t
     = assign_ranks 0 (sorted_reverse score_key (map (scored calculate_score t) repos))"
  by (simp only: rank_tier_is_with rank_tier_with_eq)

lemma rank_tier_mset:
  "mset (map unranked (rank_tier repos t)) = mset (map unranked repos)"
  by (simp only: rank_tier_is_with rank_tier_with_mset)

lemma example_scores:
  "calculate_score example_idle_repo NEW_WEIGHTS t = 0"
  "calculate_score example_active_repo NEW_WEIGHTS t = 1 / 2"
  "calculate_score example_dormant_repo NEW_WEIGHTS t = 0"
  by (simp_all add: calculate_score_def NEW_WEIGHTS_def log_scale_def dict_get_def
      example_idle_repo_def example_active_repo_def example_dormant_repo_def)

text \<open>
  C3. The ranking of a tier is \<open>rank_tier_with\<close> at the scoring function of the ranker.
  Whatever function computes the scores: the list that the ranking of a tier returns
  is the input sorted by descending score with a stable sort (the records of one score
  stand in the order of the input), each record with its score stored and with its position
  in this order, counted from 1, as \<open>rank_in_tier\<close>. So the ranks are 1, 2, ..., N in this
  order, N being the size of the tier, the stored scores descend along the list, and an
  empty tier gives the empty list.
\<close>

theorem rank_tier_ranking:
  "rank_tier repos t = rank_tier_with calculate_score repos t
   \<and> map rank_in_tier (rank_tier_with score repos t)
     = map (\<lambda>i. Some (int i)) [1..<Suc (length repos)]
   \<and> length (rank_tier_with score repos t) = length repos
   \<and> (\<exists>sorted_repos.
         mset sorted_repos = mset repos
         \<and> sorted_wrt (\<lambda>a b. score b (select_weights t) t \<le> score a (select_weights t) t)
             sorted_repos
         \<and> (\<forall>c. filter (\<lambda>r. score r (select_weights t) t = c) sorted_repos
                  = filter (\<lambda>r. score r (select_weights t) t = c) repos)
         \<and> rank_tier_with score repos t
             = map (\<lambda>(i, r). r\<lparr>composite_score := Some (score r (select_weights t) t),
                                rank_in_tier := Some (int i + 1)\<rparr>)
                 (enumerate 0 sorted_repos))
   \<and> sorted_wrt (\<lambda>a b. \<exists>x y. composite_score a = Some x \<and> composite_score b = Some y \<and> y \<le> x)
       (rank_tier_with score repos t)
   \<and> rank_tier_with score [] t = []"
proof -
  let ?k = "\<lambda>r. score r (select_weights t) t"
  let ?xs = "sorted_reverse ?k repos"
  have "mset ?xs = mset repos" by simp
  moreover have "sorted_wrt (\<lambda>a b. ?k b \<le> ?k a) ?xs" by (rule sorted_reverse_desc)
  moreover have "\<forall>c. filter (\<lambda>r. ?k r = c) ?xs = filter (\<lambda>r. ?k r = c) repos"
    by (simp add: sorted_reverse_stable)
  moreover note rank_tier_with_sorted_input [of score repos t]
  ultimately have ex: "\<exists>sorted_repos.
         mset sorted_repos = mset repos
         \<and> sorted_wrt (\<lambda>a b. ?k b \<le> ?k a) sorted_repos
         \<and> (\<forall>c. filter (\<lambda>r. ?k r = c) sorted_repos = filter (\<lambda>r. ?k r = c) repos)
         \<and> rank_tier_with score repos t
             = map (\<lambda>(i, r). r\<lparr>composite_score := Some (?k r),
                                rank_in_tier := Some (int i + 1)\<rparr>)
                 (enumerate 0 sorted_repos)"
    by blast
  have len: "length (rank_tier_with score repos t) = length repos"
    by (simp add: rank_tier_with_eq)
  have emp: "rank_tier_with score [] t = []" by (simp add: rank_tier_with_def)
  show ?thesis
    using rank_tier_is_with [of repos t] rank_tier_with_ranks [of score repos t] len ex
      rank_tier_with_stored_sorted [of score repos t] emp
    by (intro conjI)
qed

lemma example_ranked:
  "rank_tier_with calculate_score
       [example_idle_repo, example_active_repo, example_dormant_repo] ''new''
     = [example_active_repo\<lparr>composite_score := Some (1 / 2), rank_in_tier := Some 1\<rparr>,
        example_idle_repo\<lparr>composite_score := Some 0, rank_in_tier := Some 2\<rparr>,
        example_dormant_repo\<lparr>composite_score := Some 0, rank_in_tier := Some 3\<rparr>]"
  by (simp add: rank_tier_with_def select_weights_def sorted_reverse_def score_key_def
      dict_get_def example_scores)

theorem rank_tier_ranking_witness:
  "rank_tier [example_idle_repo, example_active_repo, example_dormant_repo] ''new''
     = [example_active_repo\<lparr>composite_score := Some (1 / 2), rank_in_tier := Some 1\<rparr>,
        example_idle_repo\<lparr>composite_score := Some 0, rank_in_tier := Some 2\<rparr>,
        example_dormant_repo\<lparr>composite_score := Some 0, rank_in_tier := Some 3\<rparr>]
   \<and> map rank_in_tier
         (rank_tier [example_idle_repo, example_active_repo, example_dormant_repo] ''new'')
       = [Some 1, Some 2, Some 3]"
proof -
  note t = rank_tier_ranking
    [of "[example_idle_repo, example_active_repo, example_dormant_repo]" "''new''"
       calculate_score]
  have r: "rank_tier [example_idle_repo, example_active_repo, example_dormant_repo] ''new''
        = rank_tier_with calculate_score
            [example_idle_repo, example_active_repo, example_dormant_repo] ''new''"
    using t by (rule conjunct1)
  have "map rank_in_tier
          (rank_tier_with calculate_score
             [example_idle_repo, example_active_repo, example_dormant_repo] ''new'')
        = map (\<lambda>i. Some (int i))
            [1..<Suc (length [example_idle_repo, example_active_repo, example_dormant_repo])]"
    using t by (elim conjE)
  also have "\<dots> = [Some 1, Some 2, Some 3]" by (simp add: upt_rec)
  finally show ?thesis using example_ranked by (simp only: r simp_thms)
qed


section \<open>Properties of the classification\<close>

lemma has_growth_signals_spec:
  "has_growth_signals r
     = growth_signal_spec (dict_get (star_velocity_30d r) 0) (dict_get (recent_mentions_30d r) 0)
         (dict_get (web_mentions r) 0) (dict_get (recent_commits_count r) 0)"
  by (simp add: has_growth_signals_def growth_signal_spec_def
      GROWTH_THRESHOLDS_star_velocity_per_month_def)

lemma expected_tier_cases:
  "expected_tier r = Some t \<Longrightarrow> t = ''established'' \<or> t = ''rising'' \<or> t = ''new''"
  by (auto simp: expected_tier_def tier_by_age_rule_def split: option.splits if_splits)

lemma tier_members_snoc:
  "tier_members t (xs @ [x])
     = tier_members t xs @ (if expected_tier x = Some t then [x\<lparr>tier := Some t\<rparr>] else [])"
  by (simp add: tier_members_def)

lemma classify_loop_eq:
  "classify_loop rs (e, r, n)
     = (if \<exists>x\<in>set rs. age_days x = None then Inl (KeyError ''age_days'')
        else Inr (e @ tier_members ''established'' rs, r @ tier_members ''rising'' rs,
                  n @ tier_members ''new'' rs))"
proof (induction rs arbitrary: e r n)
  case Nil
  then show ?case by (simp add: tier_members_def)
next
  case (Cons x rs)
  show ?case
  proof (cases "age_days x")
    case None
    then show ?thesis by simp
  next
    case (Some age)
    have t: "expected_tier x
               = Some (if age < 90 then ''new''
                       else if age < 365 then
                         (if has_growth_signals x then ''rising'' else ''established'')
                       else ''established'')"
      by (simp add: expected_tier_def Some tier_by_age_rule_def has_growth_signals_spec)
    show ?thesis
    proof (cases "\<exists>y\<in>set rs. age_days y = None")
      case True
      then show ?thesis
        by (auto simp: Some Cons.IH TIER_AGE_THRESHOLDS_new_def TIER_AGE_THRESHOLDS_rising_def)
    next
      case False
      then show ?thesis
        by (auto simp: Some Cons.IH t tier_members_def TIER_AGE_THRESHOLDS_new_def
            TIER_AGE_THRESHOLDS_rising_def)
    qed
  qed
qed

lemma classify_and_rank_eq:
  "classify_and_rank repos
     = (if \<exists>x\<in>set repos. age_days x = None then Inl (KeyError ''age_days'')
        else Inr (rank_tier (tier_members ''established'' repos) ''established'',
                  rank_tier (tier_members ''rising'' repos) ''rising'',
                  rank_tier (tier_members ''new'' repos) ''new''))"
  by (simp add: classify_and_rank_def classify_loop_eq)

lemma unranked_fields [simp]:
  "tier (unranked r) = tier r" "age_days (unranked r) = age_days r"
  "expected_tier (unranked r) = expected_tier r"
  "untiered (unranked r) = untiered r"
  by (simp_all add: unranked_def expected_tier_def untiered_def split: option.splits)

lemma rank_tier_member:
  assumes "r' \<in> set (rank_tier xs t)"
  shows "\<exists>r\<in>set xs. unranked r' = unranked r"
proof -
  have "set (map unranked (rank_tier xs t)) = set (map unranked xs)"
    using rank_tier_mset [of xs t] by (rule mset_eq_setD)
  then have "unranked r' \<in> unranked ` set xs" using assms by auto
  then show ?thesis by auto
qed

lemma rank_tier_member_conv:
  assumes "r \<in> set xs"
  shows "\<exists>r'\<in>set (rank_tier xs t). unranked r' = unranked r"
proof -
  have "set (map unranked (rank_tier xs t)) = set (map unranked xs)"
    using rank_tier_mset [of xs t] by (rule mset_eq_setD)
  then have "unranked r \<in> unranked ` set (rank_tier xs t)" using assms by auto
  then show ?thesis by force
qed

lemma tier_members_fields:
  assumes "r \<in> set (tier_members t repos)"
  shows "tier r = Some t \<and> expected_tier r = Some t"
  using assms by (auto simp: tier_members_def expected_tier_def split: option.splits)

lemma ranked_tier_fields:
  assumes "r' \<in> set (rank_tier (tier_members t repos) t')"
  shows "tier r' = Some t \<and> expected_tier r' = Some t"
proof -
  obtain r where r: "r \<in> set (tier_members t repos)" "unranked r' = unranked r"
    using rank_tier_member [OF assms] by auto
  have "tier r' = tier (unranked r')" "expected_tier r' = expected_tier (unranked r')"
    by simp_all
  then show ?thesis using r tier_members_fields [OF r(1)] by simp
qed

lemma untiered_rank_tier:
  "mset (map untiered (rank_tier xs t)) = mset (map untiered xs)"
proof -
  have "map untiered ys = map untiered (map unranked ys)" for ys
    by (simp add: comp_def)
  then have "mset (map untiered (rank_tier xs t))
               = image_mset untiered (mset (map unranked (rank_tier xs t)))"
    by (metis mset_map)
  also have "\<dots> = image_mset untiered (mset (map unranked xs))"
    by (simp only: rank_tier_mset)
  also have "\<dots> = mset (map untiered xs)"
    by (simp add: comp_def multiset.map_comp)
  finally show ?thesis .
qed

lemma untiered_tier_members:
  "map untiered (tier_members t repos) = map untiered (filter (\<lambda>r. expected_tier r = Some t) repos)"
  by (simp add: tier_members_def untiered_def comp_def)

lemma untiered_list:
  "image_mset untiered (mset (rank_tier (tier_members t repos) t'))
     = image_mset untiered (mset (filter (\<lambda>r. expected_tier r = Some t) repos))"
proof -
  have "image_mset untiered (mset (rank_tier (tier_members t repos) t'))
          = mset (map untiered (rank_tier (tier_members t repos) t'))"
    by (simp only: mset_map)
  also have "\<dots> = mset (map untiered (tier_members t repos))" by (rule untiered_rank_tier)
  also have "\<dots> = mset (map untiered (filter (\<lambda>r. expected_tier r = Some t) repos))"
    by (simp only: untiered_tier_members)
  finally show ?thesis by (simp only: mset_map)
qed

lemma partition_three:
  assumes "\<forall>x\<in>set xs. expected_tier x \<noteq> None"
  shows "mset (filter (\<lambda>r. expected_tier r = Some ''established'') xs)
         + mset (filter (\<lambda>r. expected_tier r = Some ''rising'') xs)
         + mset (filter (\<lambda>r. expected_tier r = Some ''new'') xs) = mset xs"
  using assms
proof (induction xs)
  case Nil
  then show ?case by simp
next
  case (Cons x xs)
  then obtain t where t: "expected_tier x = Some t" by auto
  from expected_tier_cases [OF t] show ?case using Cons t by auto
qed

lemma expected_tier_None: "expected_tier r = None \<longleftrightarrow> age_days r = None"
  by (simp add: expected_tier_def split: option.splits)

lemma classify_partition:
  assumes "\<forall>x\<in>set repos. age_days x \<noteq> None"
  shows "mset (map untiered (rank_tier (tier_members ''established'' repos) ''established''
                              @ rank_tier (tier_members ''rising'' repos) ''rising''
                              @ rank_tier (tier_members ''new'' repos) ''new''))
         = mset (map untiered repos)"
proof -
  have e: "\<forall>x\<in>set repos. expected_tier x \<noteq> None" using assms by (simp add: expected_tier_None)
  have "mset (map untiered (rank_tier (tier_members ''established'' repos) ''established''
                              @ rank_tier (tier_members ''rising'' repos) ''rising''
                              @ rank_tier (tier_members ''new'' repos) ''new''))
        = image_mset untiered
            (mset (filter (\<lambda>r. expected_tier r = Some ''established'') repos)
             + mset (filter (\<lambda>r. expected_tier r = Some ''rising'') repos)
             + mset (filter (\<lambda>r. expected_tier r = Some ''new'') repos))"
    by (simp add: untiered_list)
  then show ?thesis by (simp only: partition_three [OF e] mset_map)
qed

lemma classify_and_rank_Inr:
  assumes "classify_and_rank repos = Inr (established, rising, new)"
  shows "\<forall>x\<in>set repos. age_days x \<noteq> None"
    and "established = rank_tier (tier_members ''established'' repos) ''established''"
    and "rising = rank_tier (tier_members ''rising'' repos) ''rising''"
    and "new = rank_tier (tier_members ''new'' repos) ''new''"
proof -
  have n: "\<not> (\<exists>x\<in>set repos. age_days x = None)"
    using assms by (auto simp: classify_and_rank_eq split: if_splits)
  then show "\<forall>x\<in>set repos. age_days x \<noteq> None" by simp
  show "established = rank_tier (tier_members ''established'' repos) ''established''"
    "rising = rank_tier (tier_members ''rising'' repos) ''rising''"
    "new = rank_tier (tier_members ''new'' repos) ''new''"
    using assms n by (simp_all only: classify_and_rank_eq if_not_P if_False sum.inject prod.inject)
qed

lemma classify_input_member:
  assumes "\<forall>x\<in>set repos. age_days x \<noteq> None" "r \<in> set repos"
  shows "\<exists>r'\<in>set (rank_tier (tier_members ''established'' repos) ''established''
                    @ rank_tier (tier_members ''rising'' repos) ''rising''
                    @ rank_tier (tier_members ''new'' repos) ''new'').
           untiered r' = untiered r \<and> tier r' = expected_tier r \<and> tier r' \<noteq> None"
proof -
  obtain t where t: "expected_tier r = Some t"
    using assms by (auto simp: expected_tier_None [symmetric])
  let ?m = "r\<lparr>tier := Some t\<rparr>"
  have m: "?m \<in> set (tier_members t repos)"
    using assms(2) t by (auto simp: tier_members_def)
  have find: "\<exists>r'\<in>set (rank_tier (tier_members t repos) t'). unranked r' = unranked ?m" for t'
    using rank_tier_member_conv [OF m] .
  have ok: "untiered r' = untiered r \<and> tier r' = expected_tier r \<and> tier r' \<noteq> None"
    if "unranked r' = unranked ?m" for r'
  proof -
    have "untiered r' = untiered (unranked r')" "tier r' = tier (unranked r')" by simp_all
    then have "untiered r' = untiered (unranked ?m)" "tier r' = tier (unranked ?m)"
      by (simp_all only: that)
    then have "untiered r' = untiered ?m" "tier r' = tier ?m"
      by (simp_all only: unranked_fields)
    then show ?thesis using t by (simp add: untiered_def)
  qed
  let ?all = "rank_tier (tier_members ''established'' repos) ''established''
                    @ rank_tier (tier_members ''rising'' repos) ''rising''
                    @ rank_tier (tier_members ''new'' repos) ''new''"
  have "\<exists>r'\<in>set ?all. unranked r' = unranked ?m"
  proof -
    from expected_tier_cases [OF t] consider "t = ''established''" | "t = ''rising''" | "t = ''new''"
      by blast
    then show ?thesis
    proof cases
      case 1
      from find [of "''established''"] obtain r'
        where "r' \<in> set (rank_tier (tier_members t repos) ''established'')"
          "unranked r' = unranked ?m" by blast
      then show ?thesis using 1 by auto
    next
      case 2
      from find [of "''rising''"] obtain r'
        where "r' \<in> set (rank_tier (tier_members t repos) ''rising'')"
          "unranked r' = unranked ?m" by blast
      then show ?thesis using 2 by auto
    next
      case 3
      from find [of "''new''"] obtain r'
        where "r' \<in> set (rank_tier (tier_members t repos) ''new'')"
          "unranked r' = unranked ?m" by blast
      then show ?thesis using 3 by auto
    qed
  qed
  then obtain r' where "r' \<in> set ?all" "unranked r' = unranked ?m" by blast
  then show ?thesis using ok [of r'] by blast
qed

text \<open>
  C1. \<open>classify_and_rank\<close> returns for every list whose records have \<open>age_days\<close>. When it
  returns, every record of the three lists has the tier of its list, which is the tier the
  age rule gives it: \<open>new\<close> below 90 days, from 90 to 364 days \<open>rising\<close> with a growth signal
  and \<open>established\<close> without, \<open>established\<close> from 365 days on. Every input record is in the
  lists, with the tier the rule gives it.
\<close>

theorem classify_and_rank_tiers:
  "((\<forall>r\<in>set repos. age_days r \<noteq> None) \<longrightarrow>
      (\<exists>est ris nw. classify_and_rank repos = Inr (est, ris, nw)))
   \<and> (classify_and_rank repos = Inr (established, rising, new) \<longrightarrow>
        (\<forall>r\<in>set established.
            tier r = Some ''established'' \<and> expected_tier r = Some ''established'')
        \<and> (\<forall>r\<in>set rising. tier r = Some ''rising'' \<and> expected_tier r = Some ''rising'')
        \<and> (\<forall>r\<in>set new. tier r = Some ''new'' \<and> expected_tier r = Some ''new'')
        \<and> (\<forall>r\<in>set repos. \<exists>r'\<in>set (established @ rising @ new).
              untiered r' = untiered r \<and> tier r' = expected_tier r \<and> tier r' \<noteq> None))"
proof (intro conjI impI)
  assume "\<forall>r\<in>set repos. age_days r \<noteq> None"
  then show "\<exists>est ris nw. classify_and_rank repos = Inr (est, ris, nw)"
    by (simp add: classify_and_rank_eq)
next
  assume a: "classify_and_rank repos = Inr (established, rising, new)"
  note c = classify_and_rank_Inr [OF a]
  show "\<forall>r\<in>set repos. \<exists>r'\<in>set (established @ rising @ new).
             untiered r' = untiered r \<and> tier r' = expected_tier r \<and> tier r' \<noteq> None"
    unfolding c(2-4) using classify_input_member [OF c(1)] by blast
  show "\<forall>r\<in>set established.
          tier r = Some ''established'' \<and> expected_tier r = Some ''established''"
    unfolding c(2) using ranked_tier_fields by blast
  show "\<forall>r\<in>set rising. tier r = Some ''rising'' \<and> expected_tier r = Some ''rising''"
    unfolding c(3) using ranked_tier_fields by blast
  show "\<forall>r\<in>set new. tier r = Some ''new'' \<and> expected_tier r = Some ''new''"
    unfolding c(4) using ranked_tier_fields by blast
qed

lemma example_fields:
  "age_days example_repo = Some 400" "age_days example_new_repo = Some 30"
  by (simp_all add: example_repo_def example_new_repo_def)

lemma example_classified:
  "classify_and_rank [example_repo, example_new_repo]
     = Inr ([example_repo\<lparr>tier := Some ''established'',
                composite_score := Some (calculate_score example_repo ESTABLISHED_WEIGHTS ''established''),
                rank_in_tier := Some 1\<rparr>],
            [],
            [example_new_repo\<lparr>tier := Some ''new'',
                composite_score := Some (calculate_score example_new_repo NEW_WEIGHTS ''new''),
                rank_in_tier := Some 1\<rparr>])"
  by (simp add: classify_and_rank_def example_fields TIER_AGE_THRESHOLDS_new_def
      TIER_AGE_THRESHOLDS_rising_def rank_tier_def select_weights_def sorted_reverse_def)

lemma example_growth:
  "age_days example_rising_repo = Some 200" "age_days example_quiet_repo = Some 200"
  "has_growth_signals example_rising_repo" "\<not> has_growth_signals example_quiet_repo"
  by (simp_all add: example_rising_repo_def example_quiet_repo_def has_growth_signals_def
      dict_get_def GROWTH_THRESHOLDS_star_velocity_per_month_def)

lemma example_classified_by_growth:
  "classify_and_rank [example_rising_repo, example_new_repo, example_quiet_repo]
     = Inr ([example_quiet_repo\<lparr>tier := Some ''established'',
                composite_score :=
                  Some (calculate_score example_quiet_repo ESTABLISHED_WEIGHTS ''established''),
                rank_in_tier := Some 1\<rparr>],
            [example_rising_repo\<lparr>tier := Some ''rising'',
                composite_score :=
                  Some (calculate_score example_rising_repo RISING_WEIGHTS ''rising''),
                rank_in_tier := Some 1\<rparr>],
            [example_new_repo\<lparr>tier := Some ''new'',
                composite_score := Some (calculate_score example_new_repo NEW_WEIGHTS ''new''),
                rank_in_tier := Some 1\<rparr>])"
  by (simp add: classify_and_rank_def example_fields example_growth TIER_AGE_THRESHOLDS_new_def
      TIER_AGE_THRESHOLDS_rising_def rank_tier_def select_weights_def sorted_reverse_def)

theorem classify_and_rank_tiers_witness:
  "classify_and_rank [example_rising_repo, example_new_repo, example_quiet_repo]
     = Inr ([example_quiet_repo\<lparr>tier := Some ''established'',
                composite_score :=
                  Some (calculate_score example_quiet_repo ESTABLISHED_WEIGHTS ''established''),
                rank_in_tier := Some 1\<rparr>],
            [example_rising_repo\<lparr>tier := Some ''rising'',
                composite_score :=
                  Some (calculate_score example_rising_repo RISING_WEIGHTS ''rising''),
                rank_in_tier := Some 1\<rparr>],
            [example_new_repo\<lparr>tier := Some ''new'',
                composite_score := Some (calculate_score example_new_repo NEW_WEIGHTS ''new''),
                rank_in_tier := Some 1\<rparr>])
   \<and> expected_tier example_rising_repo = Some ''rising''
   \<and> expected_tier example_quiet_repo = Some ''established''
   \<and> expected_tier example_new_repo = Some ''new''"
  using example_classified_by_growth
    classify_and_rank_tiers [of "[example_rising_repo, example_new_repo, example_quiet_repo]"
      "[example_quiet_repo\<lparr>tier := Some ''established'',
                composite_score :=
                  Some (calculate_score example_quiet_repo ESTABLISHED_WEIGHTS ''established''),
                rank_in_tier := Some 1\<rparr>]"
      "[example_rising_repo\<lparr>tier := Some ''rising'',
                composite_score :=
                  Some (calculate_score example_rising_repo RISING_WEIGHTS ''rising''),
                rank_in_tier := Some 1\<rparr>]"
      "[example_new_repo\<lparr>tier := Some ''new'',
                composite_score := Some (calculate_score example_new_repo NEW_WEIGHTS ''new''),
                rank_in_tier := Some 1\<rparr>]"]
  by (simp add: expected_tier_def split: option.splits)

text \<open>
  C7. \<open>classify_and_rank\<close> returns for every list whose records have \<open>age_days\<close>; the three
  lists together have as many records as the input and are the input's records (each once,
  up to the fields that are written); no record is in two lists, and every record of a list
  has the one tier of that list.
\<close>

theorem classify_and_rank_partition:
  "((\<forall>r\<in>set repos. age_days r \<noteq> None) \<longrightarrow>
      (\<exists>est ris nw. classify_and_rank repos = Inr (est, ris, nw)))
   \<and> (classify_and_rank repos = Inr (established, rising, new) \<longrightarrow>
        length established + length rising + length new = length repos
        \<and> set established \<inter> set rising = {}
        \<and> set established \<inter> set new = {}
        \<and> set rising \<inter> set new = {}
        \<and> (\<forall>r\<in>set established. tier r = Some ''established'')
        \<and> (\<forall>r\<in>set rising. tier r = Some ''rising'')
        \<and> (\<forall>r\<in>set new. tier r = Some ''new'')
        \<and> mset (map untiered (established @ rising @ new)) = mset (map untiered repos))"
proof (intro conjI impI)
  assume "\<forall>r\<in>set repos. age_days r \<noteq> None"
  then show "\<exists>est ris nw. classify_and_rank repos = Inr (est, ris, nw)"
    by (simp add: classify_and_rank_eq)
next
  assume a: "classify_and_rank repos = Inr (established, rising, new)"
  note c = classify_and_rank_Inr [OF a]
  have e: "\<forall>r\<in>set established. tier r = Some ''established''"
    and r: "\<forall>r\<in>set rising. tier r = Some ''rising''"
    and n: "\<forall>r\<in>set new. tier r = Some ''new''"
    unfolding c(2-4) using ranked_tier_fields by blast+
  show "\<forall>r\<in>set established. tier r = Some ''established''"
    "\<forall>r\<in>set rising. tier r = Some ''rising''" "\<forall>r\<in>set new. tier r = Some ''new''"
    by (rule e, rule r, rule n)
  show "set established \<inter> set rising = {}" using e r by fastforce
  show "set established \<inter> set new = {}" using e n by fastforce
  show "set rising \<inter> set new = {}" using r n by fastforce
  show m: "mset (map untiered (established @ rising @ new)) = mset (map untiered repos)"
    unfolding c(2-4) using classify_partition [OF c(1)] .
  have "length (map untiered (established @ rising @ new)) = length (map untiered repos)"
    using m by (rule mset_eq_length)
  then show "length established + length rising + length new = length repos" by simp
qed

theorem classify_and_rank_partition_witness:
  "classify_and_rank [example_repo, example_new_repo]
     = Inr ([example_repo\<lparr>tier := Some ''established'',
                composite_score := Some (calculate_score example_repo ESTABLISHED_WEIGHTS ''established''),
                rank_in_tier := Some 1\<rparr>],
            [],
            [example_new_repo\<lparr>tier := Some ''new'',
                composite_score := Some (calculate_score example_new_repo NEW_WEIGHTS ''new''),
                rank_in_tier := Some 1\<rparr>])
   \<and> length [example_repo\<lparr>tier := Some ''established'',
                composite_score := Some (calculate_score example_repo ESTABLISHED_WEIGHTS ''established''),
                rank_in_tier := Some 1\<rparr>] + length ([] :: repo list)
       + length [example_new_repo\<lparr>tier := Some ''new'',
                composite_score := Some (calculate_score example_new_repo NEW_WEIGHTS ''new''),
                rank_in_tier := Some 1\<rparr>]
       = length [example_repo, example_new_repo]"
  using example_classified
    classify_and_rank_partition [of "[example_repo, example_new_repo]"]
  by (simp add: example_fields)

section \<open>Properties of the deduplication\<close>

lemma first_occurrences_snoc:
  "first_occurrences (xs @ [k])
     = (if k \<in> set xs then first_occurrences xs else first_occurrences xs @ [k])"
  by (simp add: first_occurrences_def)

lemma first_occurrences_basic [simp]:
  "set (first_occurrences xs) = set xs" "distinct (first_occurrences xs)"
  "first_occurrences [] = []"
  by (simp_all add: first_occurrences_def)

lemma first_occurrences_distinct: "distinct xs \<Longrightarrow> first_occurrences xs = xs"
  by (simp add: first_occurrences_def distinct_remdups_id)

lemma repo_keys_snoc:
  "repo_keys lower (xs @ [r]) = repo_keys lower xs @ (case repo_key lower r of Inl e \<Rightarrow> [] | Inr k \<Rightarrow> [k])"
  by (simp add: repo_keys_def)

lemma set_repo_keys: "set (repo_keys lower xs) = {k. \<exists>r\<in>set xs. repo_key lower r = Inr k}"
  by (auto simp: repo_keys_def split: sum.splits)

lemma group_of_empty: "k \<notin> set (repo_keys lower xs) \<Longrightarrow> group_of lower k xs = []"
  by (auto simp: set_repo_keys group_of_def filter_empty_conv)

lemma group_of_nonempty: "k \<in> set (repo_keys lower xs) \<Longrightarrow> group_of lower k xs \<noteq> []"
  by (auto simp: set_repo_keys group_of_def filter_empty_conv)

lemma group_of_snoc:
  "group_of lower k (xs @ [r]) = group_of lower k xs @ (if repo_key lower r = Inr k then [r] else [])"
  by (simp add: group_of_def)

lemma add_to_group_new:
  "key \<notin> fst ` set gs \<Longrightarrow> add_to_group key r gs = gs @ [(key, [r])]"
  by (induction gs) auto

lemma add_to_group_map:
  assumes "distinct ks"
  shows "add_to_group key r (map (\<lambda>k. (k, F k)) ks)
           = (if key \<in> set ks then map (\<lambda>k. (k, if k = key then F k @ [r] else F k)) ks
              else map (\<lambda>k. (k, F k)) ks @ [(key, [r])])"
  using assms by (induction ks) auto

lemma add_to_group_spec:
  assumes "repo_key lower r = Inr key"
  shows "add_to_group key r (groups_spec lower seen) = groups_spec lower (seen @ [r])"
proof (cases "key \<in> set (repo_keys lower seen)")
  case True
  have "add_to_group key r (groups_spec lower seen)
          = map (\<lambda>k. (k, if k = key then group_of lower k seen @ [r] else group_of lower k seen))
              (first_occurrences (repo_keys lower seen))"
    unfolding groups_spec_def using True by (simp add: add_to_group_map)
  also have "\<dots> = map (\<lambda>k. (k, group_of lower k (seen @ [r]))) (first_occurrences (repo_keys lower seen))"
    by (rule map_cong) (auto simp: group_of_snoc assms)
  also have "\<dots> = groups_spec lower (seen @ [r])"
    using True by (simp add: groups_spec_def repo_keys_snoc assms first_occurrences_snoc)
  finally show ?thesis .
next
  case False
  have "add_to_group key r (groups_spec lower seen)
          = map (\<lambda>k. (k, group_of lower k seen)) (first_occurrences (repo_keys lower seen)) @ [(key, [r])]"
    unfolding groups_spec_def using False by (simp add: add_to_group_map)
  also have "map (\<lambda>k. (k, group_of lower k seen)) (first_occurrences (repo_keys lower seen))
               = map (\<lambda>k. (k, group_of lower k (seen @ [r]))) (first_occurrences (repo_keys lower seen))"
    by (rule map_cong) (use False in \<open>auto simp: group_of_snoc assms\<close>)
  also have "[(key, [r])] = [(key, group_of lower key (seen @ [r]))]"
    using False by (simp add: group_of_snoc assms group_of_empty)
  finally show ?thesis
    using False by (simp add: groups_spec_def repo_keys_snoc assms first_occurrences_snoc)
qed

lemma build_groups_spec:
  "build_groups lower rs (groups_spec lower seen)
     = (if \<forall>r\<in>set rs. \<exists>k. repo_key lower r = Inr k then Inr (groups_spec lower (seen @ rs))
        else build_groups lower rs (groups_spec lower seen))"
proof (induction rs arbitrary: seen)
  case Nil
  then show ?case by simp
next
  case (Cons r rs)
  show ?case
  proof (cases "repo_key lower r")
    case (Inl e)
    then show ?thesis by auto
  next
    case (Inr k)
    show ?thesis
      using Cons.IH [of "seen @ [r]"] by (auto simp: Inr add_to_group_spec)
  qed
qed

lemma build_groups_error:
  "build_groups lower rs gs = Inl e \<Longrightarrow> e = KeyError ''owner'' \<or> e = KeyError ''name''"
proof (induction rs arbitrary: gs)
  case Nil
  then show ?case by simp
next
  case (Cons r rs)
  then show ?case
    by (auto simp: repo_key_def split: option.splits sum.splits)
qed

lemma build_groups_error_iff:
  "(\<exists>e. build_groups lower rs gs = Inl e) \<longleftrightarrow> \<not> (\<forall>r\<in>set rs. \<exists>k. repo_key lower r = Inr k)"
proof (induction rs arbitrary: gs)
  case Nil
  then show ?case by simp
next
  case (Cons r rs)
  show ?case
  proof (cases "repo_key lower r")
    case (Inl e)
    then show ?thesis by auto
  next
    case (Inr k)
    then show ?thesis using Cons.IH [of "add_to_group k r gs"] by auto
  qed
qed

lemma groups_spec_Nil [simp]: "groups_spec lower [] = []"
  by (simp add: groups_spec_def repo_keys_def)

lemma stars_less_step:
  assumes "stars best = Some bk" "stars x = Some s" "bk < s"
  shows "stars_less best x"
    and "stars_less p best \<Longrightarrow> stars_less p x"
    and "stars_leq q best \<Longrightarrow> stars_less q x"
  using assms by (auto simp: stars_less_def stars_leq_def split: option.splits)

lemma stars_leq_step:
  assumes "stars best = Some bk" "stars x = Some s" "\<not> bk < s"
  shows "stars_leq x best"
  using assms by (auto simp: stars_leq_def)

lemma max_loop_first_greatest:
  assumes "max_loop best bk rest = Inr r" "stars best = Some bk"
    "list_all (\<lambda>p. stars_less p best) before" "list_all (\<lambda>q. stars_leq q best) mid"
  shows "\<exists>b a. before @ best # mid @ rest = b @ r # a
           \<and> list_all (\<lambda>p. stars_less p r) b \<and> list_all (\<lambda>q. stars_leq q r) a"
  using assms
proof (induction rest arbitrary: best bk before mid)
  case Nil
  then show ?case by auto
next
  case (Cons x rest)
  from Cons.prems(1) obtain s where s: "stars x = Some s"
    by (auto split: option.splits)
  show ?case
  proof (cases "bk < s")
    case True
    have run: "max_loop x s rest = Inr r" using Cons.prems(1) s True by simp
    have bef: "list_all (\<lambda>p. stars_less p x) (before @ best # mid)"
      using Cons.prems(3,4) stars_less_step [OF Cons.prems(2) s True]
      by (auto simp: list_all_iff)
    have "\<exists>b a. (before @ best # mid) @ x # [] @ rest = b @ r # a
           \<and> list_all (\<lambda>p. stars_less p r) b \<and> list_all (\<lambda>q. stars_leq q r) a"
      by (rule Cons.IH [OF run s bef]) simp
    then show ?thesis by simp
  next
    case False
    have run: "max_loop best bk rest = Inr r" using Cons.prems(1) s False by simp
    have mid: "list_all (\<lambda>q. stars_leq q best) (mid @ [x])"
      using Cons.prems(4) stars_leq_step [OF Cons.prems(2) s False] by simp
    have "\<exists>b a. before @ best # (mid @ [x]) @ rest = b @ r # a
           \<and> list_all (\<lambda>p. stars_less p r) b \<and> list_all (\<lambda>q. stars_leq q r) a"
      by (rule Cons.IH [OF run Cons.prems(2) Cons.prems(3) mid])
    then show ?thesis by simp
  qed
qed

lemma max_by_stars_first_greatest:
  assumes "max_by_stars grp = Inr r"
  shows "first_greatest grp r"
proof (cases grp)
  case Nil
  then show ?thesis using assms by simp
next
  case (Cons x rest)
  then obtain s where s: "stars x = Some s" and run: "max_loop x s rest = Inr r"
    using assms by (auto split: option.splits)
  have "\<exists>b a. [] @ x # [] @ rest = b @ r # a
           \<and> list_all (\<lambda>p. stars_less p r) b \<and> list_all (\<lambda>q. stars_leq q r) a"
    by (rule max_loop_first_greatest [OF run s]) simp_all
  then show ?thesis by (simp add: first_greatest_def Cons)
qed

lemma select_group_first_greatest:
  assumes "select_group grp = Inr r"
  shows "first_greatest grp r"
proof (cases "length grp = 1")
  case True
  then obtain x where x: "grp = [x]" by (cases grp) auto
  then have r: "r = x" using assms by (simp add: select_group_def)
  have "[x] = [] @ x # [] \<and> list_all (\<lambda>p. stars_less p x) []
          \<and> list_all (\<lambda>q. stars_leq q x) []" by simp
  then show ?thesis unfolding first_greatest_def x r by blast
next
  case False
  then have "max_by_stars grp = Inr r"
    using assms by (auto simp: select_group_def split: sum.splits option.splits)
  then show ?thesis by (rule max_by_stars_first_greatest)
qed

lemma first_greatest_member: "first_greatest grp r \<Longrightarrow> r \<in> set grp"
  by (auto simp: first_greatest_def)

lemma max_loop_error: "max_loop best bk rest = Inl e \<Longrightarrow> e = KeyError ''stars''"
  by (induction rest arbitrary: best bk) (auto split: option.splits if_splits)

lemma max_loop_total:
  "\<forall>r\<in>set rest. stars r \<noteq> None \<Longrightarrow> \<exists>r. max_loop best bk rest = Inr r"
  by (induction rest arbitrary: best bk) auto

lemma select_group_error:
  assumes "select_group grp = Inl e" "grp \<noteq> []"
  shows "e = KeyError ''stars'' \<or> e = KeyError ''platform''"
proof -
  obtain x rest where g: "grp = x # rest" using assms(2) by (cases grp) auto
  show ?thesis
    using assms(1) max_loop_error [of _ _ rest e]
    by (auto simp: select_group_def g split: if_splits sum.splits option.splits)
qed

lemma select_group_total:
  assumes "grp \<noteq> []" "\<forall>r\<in>set grp. stars r \<noteq> None \<and> platform r \<noteq> None"
  shows "\<exists>r. select_group grp = Inr r"
proof (cases "length grp = 1")
  case True
  then show ?thesis by (simp add: select_group_def)
next
  case False
  obtain x rest where g: "grp = x # rest" using assms(1) by (cases grp) auto
  obtain s where s: "stars x = Some s" using assms(2) g by auto
  obtain r where r: "max_loop x s rest = Inr r"
    using max_loop_total [of rest x s] assms(2) g by auto
  then have m: "max_by_stars grp = Inr r" by (simp add: g s)
  have "r \<in> set grp" using max_by_stars_first_greatest [OF m] by (rule first_greatest_member)
  then obtain p where "platform r = Some p" using assms(2) by auto
  then show ?thesis using False m by (simp add: select_group_def)
qed

lemma select_groups_sel:
  assumes "select_groups gs acc = Inr out"
  shows "\<exists>sel. out = acc @ sel \<and> list_all2 (\<lambda>kg r. select_group (snd kg) = Inr r) gs sel"
  using assms
proof (induction gs arbitrary: acc)
  case Nil
  then show ?case by simp
next
  case (Cons kg gs)
  obtain k g where kg: "kg = (k, g)" by (cases kg)
  from Cons.prems obtain r where r: "select_group g = Inr r"
    and run: "select_groups gs (acc @ [r]) = Inr out"
    by (auto simp: kg split: sum.splits)
  from Cons.IH [OF run] obtain sel where "out = (acc @ [r]) @ sel"
    "list_all2 (\<lambda>kg r. select_group (snd kg) = Inr r) gs sel" by blast
  then have "out = acc @ (r # sel) \<and> list_all2 (\<lambda>kg r. select_group (snd kg) = Inr r) (kg # gs) (r # sel)"
    using r by (simp add: kg)
  then show ?case by blast
qed

lemma select_groups_error:
  "select_groups gs acc = Inl e \<Longrightarrow> \<exists>kg\<in>set gs. select_group (snd kg) = Inl e"
proof (induction gs arbitrary: acc)
  case Nil
  then show ?case by simp
next
  case (Cons kg gs)
  obtain k g where kg: "kg = (k, g)" by (cases kg)
  show ?case
  proof (cases "select_group g")
    case (Inl e')
    then show ?thesis using Cons.prems by (simp add: kg)
  next
    case (Inr r)
    then have "select_groups gs (acc @ [r]) = Inl e" using Cons.prems by (simp add: kg)
    from Cons.IH [OF this] show ?thesis by simp
  qed
qed

lemma select_groups_total:
  "\<forall>kg\<in>set gs. \<exists>r. select_group (snd kg) = Inr r \<Longrightarrow> \<exists>out. select_groups gs acc = Inr out"
proof (induction gs arbitrary: acc)
  case Nil
  then show ?case by simp
next
  case (Cons kg gs)
  obtain k g where kg: "kg = (k, g)" by (cases kg)
  from Cons.prems obtain r where r: "select_group g = Inr r" by (auto simp: kg)
  have "\<exists>out. select_groups gs (acc @ [r]) = Inr out" using Cons by simp
  then show ?case by (simp add: kg r)
qed

lemma build_groups_Inr:
  assumes "build_groups lower repos [] = Inr gs"
  shows "gs = groups_spec lower repos" and "\<forall>r\<in>set repos. \<exists>k. repo_key lower r = Inr k"
proof -
  show all: "\<forall>r\<in>set repos. \<exists>k. repo_key lower r = Inr k"
    using build_groups_error_iff [of lower repos "[]"] assms by auto
  have "build_groups lower repos (groups_spec lower []) = Inr (groups_spec lower ([] @ repos))"
    using build_groups_spec [of lower repos "[]"] all by (simp only: if_P)
  then show "gs = groups_spec lower repos" using assms by simp
qed

lemma deduplicate_repos_Inr:
  assumes "deduplicate_repos lower repos = Inr out"
  shows "list_all2 (\<lambda>k r. select_group (group_of lower k repos) = Inr r)
           (first_occurrences (repo_keys lower repos)) out"
    and "\<forall>r\<in>set repos. \<exists>k. repo_key lower r = Inr k"
proof -
  from assms obtain gs where gs: "build_groups lower repos [] = Inr gs"
    and sel: "select_groups gs [] = Inr out"
    by (auto simp: deduplicate_repos_def split: sum.splits)
  note b = build_groups_Inr [OF gs]
  show "\<forall>r\<in>set repos. \<exists>k. repo_key lower r = Inr k" by (rule b(2))
  from select_groups_sel [OF sel]
  have "list_all2 (\<lambda>kg r. select_group (snd kg) = Inr r) (groups_spec lower repos) out"
    by (simp add: b(1))
  then show "list_all2 (\<lambda>k r. select_group (group_of lower k repos) = Inr r)
           (first_occurrences (repo_keys lower repos)) out"
    by (simp add: groups_spec_def list_all2_map1)
qed

lemma key_bridge:
  "repo_key lower r = Inr k \<longleftrightarrow> normalized_key lower r = Some k"
  by (auto simp: repo_key_def normalized_key_def split: option.splits)

lemma key_bridge_ex:
  "(\<exists>k. repo_key lower r = Inr k) \<longleftrightarrow> normalized_key lower r \<noteq> None"
  by (auto simp: repo_key_def normalized_key_def split: option.splits)

lemma normalized_key_None:
  "normalized_key lower r = None \<longleftrightarrow> owner r = None \<or> name r = None"
  by (auto simp: normalized_key_def split: option.splits)

lemma group_of_normalized:
  "group_of lower k repos = filter (\<lambda>x. normalized_key lower x = Some k) repos"
  by (simp add: group_of_def key_bridge)

lemma key_group_is_group:
  "normalized_key lower r = Some k \<Longrightarrow> key_group lower r repos = group_of lower k repos"
  by (simp add: key_group_def group_of_normalized)

lemma normalized_keys_map:
  "\<forall>r\<in>set rs. normalized_key lower r \<noteq> None
     \<Longrightarrow> map (normalized_key lower) rs = map Some (repo_keys lower rs)"
proof (induction rs)
  case Nil
  then show ?case by (simp add: repo_keys_def)
next
  case (Cons r rs)
  then obtain k where k: "normalized_key lower r = Some k" by auto
  then have "repo_key lower r = Inr k" by (simp add: key_bridge)
  then have "repo_keys lower (r # rs) = k # repo_keys lower rs" by (simp add: repo_keys_def)
  then show ?case using Cons k by simp
qed

lemma remdups_map_Some: "remdups (map Some xs) = map Some (remdups xs)"
  by (induction xs) auto

lemma first_occurrences_map_Some:
  "first_occurrences (map Some xs) = map Some (first_occurrences xs)"
  by (simp add: first_occurrences_def rev_map remdups_map_Some)

lemma max_loop_stars:
  "max_loop best bk rest = Inr r \<Longrightarrow> \<forall>x\<in>set rest. stars x \<noteq> None"
  by (induction rest arbitrary: best bk) (auto split: option.splits if_splits)

lemma max_by_stars_stars:
  assumes "max_by_stars grp = Inr r"
  shows "\<forall>x\<in>set grp. stars x \<noteq> None"
proof (cases grp)
  case Nil
  then show ?thesis by simp
next
  case (Cons x rest)
  then obtain s where "stars x = Some s" "max_loop x s rest = Inr r"
    using assms by (auto split: option.splits)
  then show ?thesis using max_loop_stars [of x s rest r] Cons by simp
qed

lemma max_by_stars_total:
  assumes "grp \<noteq> []" "\<forall>x\<in>set grp. stars x \<noteq> None"
  shows "\<exists>r. max_by_stars grp = Inr r"
proof -
  obtain x rest where g: "grp = x # rest" using assms(1) by (cases grp) auto
  obtain s where s: "stars x = Some s" using assms(2) g by auto
  have "\<exists>r. max_loop x s rest = Inr r"
    using max_loop_total [of rest x s] assms(2) g by simp
  then show ?thesis by (simp add: g s)
qed

lemma stars_order_clash: "stars_less p r \<Longrightarrow> stars_leq r p \<Longrightarrow> False"
  by (auto simp: stars_less_def stars_leq_def split: option.splits)

lemma split_position:
  assumes "b @ r # a = b' @ r' # a'" "length b < length b'"
  shows "r \<in> set b'" and "r' \<in> set a"
proof -
  from assms obtain c where c: "b' = b @ c" "c \<noteq> []"
    by (metis append_eq_append_conv_if append_take_drop_id length_take less_imp_le_nat min.absorb2
        append_Nil2 less_irrefl)
  then obtain c' where c': "c = r # c'"
    using assms(1) by (cases c) auto
  show "r \<in> set b'" by (simp add: c c')
  have "a = c' @ r' # a'" using assms(1) by (simp add: c c')
  then show "r' \<in> set a" by simp
qed

lemma first_greatest_unique:
  assumes "first_greatest grp r" "first_greatest grp r'"
  shows "r = r'"
proof -
  from assms(1) obtain b a where 1: "grp = b @ r # a"
    "list_all (\<lambda>p. stars_less p r) b" "list_all (\<lambda>q. stars_leq q r) a"
    by (auto simp: first_greatest_def)
  from assms(2) obtain b' a' where 2: "grp = b' @ r' # a'"
    "list_all (\<lambda>p. stars_less p r') b'" "list_all (\<lambda>q. stars_leq q r') a'"
    by (auto simp: first_greatest_def)
  have eq: "b @ r # a = b' @ r' # a'" using 1(1) 2(1) by simp
  consider "length b < length b'" | "length b' < length b" | "length b = length b'"
    by linarith
  then show ?thesis
  proof cases
    case 1
    from split_position [OF eq 1] have "stars_less r r'" "stars_leq r' r"
      using \<open>list_all (\<lambda>p. stars_less p r') b'\<close> \<open>list_all (\<lambda>q. stars_leq q r) a\<close>
      by (simp_all add: list_all_iff)
    then show ?thesis using stars_order_clash by blast
  next
    case 2
    from split_position [OF eq [symmetric] 2] have "stars_less r' r" "stars_leq r r'"
      using \<open>list_all (\<lambda>p. stars_less p r) b\<close> \<open>list_all (\<lambda>q. stars_leq q r') a'\<close>
      by (simp_all add: list_all_iff)
    then show ?thesis using stars_order_clash by blast
  next
    case 3
    then show ?thesis using eq by simp
  qed
qed

lemma select_group_Inr_iff:
  assumes "grp \<noteq> []"
  shows "(\<exists>r. select_group grp = Inr r) \<longleftrightarrow>
           (length grp = 1
            \<or> (\<forall>x\<in>set grp. stars x \<noteq> None) \<and> (\<forall>b. first_greatest grp b \<longrightarrow> platform b \<noteq> None))"
proof (cases "length grp = 1")
  case True
  then show ?thesis by (simp add: select_group_def)
next
  case False
  show ?thesis
  proof
    assume "\<exists>r. select_group grp = Inr r"
    then obtain r where r: "select_group grp = Inr r" by blast
    then have m: "max_by_stars grp = Inr r" and p: "platform r \<noteq> None"
      using False by (auto simp: select_group_def split: sum.splits option.splits)
    have "\<forall>b. first_greatest grp b \<longrightarrow> platform b \<noteq> None"
      using first_greatest_unique [OF max_by_stars_first_greatest [OF m]] p by blast
    then show "length grp = 1
            \<or> (\<forall>x\<in>set grp. stars x \<noteq> None) \<and> (\<forall>b. first_greatest grp b \<longrightarrow> platform b \<noteq> None)"
      using max_by_stars_stars [OF m] by blast
  next
    assume "length grp = 1
            \<or> (\<forall>x\<in>set grp. stars x \<noteq> None) \<and> (\<forall>b. first_greatest grp b \<longrightarrow> platform b \<noteq> None)"
    then have s: "\<forall>x\<in>set grp. stars x \<noteq> None"
      and p: "\<forall>b. first_greatest grp b \<longrightarrow> platform b \<noteq> None"
      using False by blast+
    obtain r where m: "max_by_stars grp = Inr r"
      using max_by_stars_total [OF assms s] by blast
    then obtain q where "platform r = Some q"
      using p max_by_stars_first_greatest [OF m] by fastforce
    then show "\<exists>r. select_group grp = Inr r"
      using False m by (simp add: select_group_def)
  qed
qed

lemma list_all2_lhs:
  "list_all2 P xs ys \<Longrightarrow> x \<in> set xs \<Longrightarrow> \<exists>y\<in>set ys. P x y"
  by (induction rule: list_all2_induct) auto

lemma list_all2_rhs:
  "list_all2 P xs ys \<Longrightarrow> y \<in> set ys \<Longrightarrow> \<exists>x\<in>set xs. P x y"
  by (induction rule: list_all2_induct) auto

lemma build_groups_all_keys:
  assumes "\<forall>r\<in>set repos. \<exists>k. repo_key lower r = Inr k"
  shows "build_groups lower repos [] = Inr (groups_spec lower repos)"
  using build_groups_spec [of lower repos "[]"] assms
  by (simp only: if_P groups_spec_Nil append_Nil)

lemma deduplicate_repos_returns_groups:
  "(\<exists>out. deduplicate_repos lower repos = Inr out) \<longleftrightarrow>
     (\<forall>r\<in>set repos. \<exists>k. repo_key lower r = Inr k)
     \<and> (\<forall>k\<in>set (repo_keys lower repos). \<exists>r. select_group (group_of lower k repos) = Inr r)"
proof
  assume "\<exists>out. deduplicate_repos lower repos = Inr out"
  then obtain out where out: "deduplicate_repos lower repos = Inr out" by blast
  note d = deduplicate_repos_Inr [OF out]
  have "\<exists>r. select_group (group_of lower k repos) = Inr r"
    if "k \<in> set (repo_keys lower repos)" for k
    using list_all2_lhs [OF d(1), of k] that by auto
  then show "(\<forall>r\<in>set repos. \<exists>k. repo_key lower r = Inr k)
     \<and> (\<forall>k\<in>set (repo_keys lower repos). \<exists>r. select_group (group_of lower k repos) = Inr r)"
    using d(2) by blast
next
  assume a: "(\<forall>r\<in>set repos. \<exists>k. repo_key lower r = Inr k)
     \<and> (\<forall>k\<in>set (repo_keys lower repos). \<exists>r. select_group (group_of lower k repos) = Inr r)"
  then have b: "build_groups lower repos [] = Inr (groups_spec lower repos)"
    by (simp add: build_groups_all_keys)
  have "\<forall>kg\<in>set (groups_spec lower repos). \<exists>r. select_group (snd kg) = Inr r"
    using a by (auto simp: groups_spec_def)
  then have "\<exists>out. select_groups (groups_spec lower repos) [] = Inr out"
    by (rule select_groups_total)
  then show "\<exists>out. deduplicate_repos lower repos = Inr out"
    by (simp add: deduplicate_repos_def b)
qed

lemma key_in_repo_keys:
  "r \<in> set repos \<Longrightarrow> normalized_key lower r = Some k \<Longrightarrow> k \<in> set (repo_keys lower repos)"
  by (auto simp: set_repo_keys key_bridge)

lemma group_member:
  "x \<in> set (group_of lower k repos) \<longleftrightarrow> x \<in> set repos \<and> normalized_key lower x = Some k"
  by (auto simp: group_of_normalized)

lemma deduplicate_repos_returns_iff:
  "(\<exists>out. deduplicate_repos lower repos = Inr out) \<longleftrightarrow>
     (\<forall>r\<in>set repos. normalized_key lower r \<noteq> None)
     \<and> (\<forall>r\<in>set repos. duplicated lower r repos \<longrightarrow> stars r \<noteq> None)
     \<and> (\<forall>r\<in>set repos. kept lower r repos \<longrightarrow> duplicated lower r repos \<longrightarrow> platform r \<noteq> None)"
  (is "?L \<longleftrightarrow> ?K \<and> ?S \<and> ?P")
proof -
  have groups: "(\<forall>k\<in>set (repo_keys lower repos). \<exists>r. select_group (group_of lower k repos) = Inr r)
                  \<longleftrightarrow> ?S \<and> ?P" if keys: ?K
  proof
    assume g: "\<forall>k\<in>set (repo_keys lower repos). \<exists>r. select_group (group_of lower k repos) = Inr r"
    have cond: "length (key_group lower r repos) = 1
                \<or> (\<forall>x\<in>set (key_group lower r repos). stars x \<noteq> None)
                  \<and> (\<forall>b. first_greatest (key_group lower r repos) b \<longrightarrow> platform b \<noteq> None)"
      if r: "r \<in> set repos" for r
    proof -
      obtain k where k: "normalized_key lower r = Some k" using keys r by auto
      have in_keys: "k \<in> set (repo_keys lower repos)" using r k by (rule key_in_repo_keys)
      have ne: "group_of lower k repos \<noteq> []" using in_keys by (rule group_of_nonempty)
      have "\<exists>b. select_group (group_of lower k repos) = Inr b" using g in_keys by blast
      then show ?thesis
        using select_group_Inr_iff [OF ne] by (simp add: key_group_is_group [OF k])
    qed
    have mem: "r \<in> set (key_group lower r repos)" if "r \<in> set repos" for r
      using that by (simp add: key_group_def)
    show "?S \<and> ?P"
    proof (intro conjI ballI impI)
      fix r assume r: "r \<in> set repos" and d: "duplicated lower r repos"
      then show "stars r \<noteq> None"
        using cond [OF r] mem [OF r] by (auto simp: duplicated_def)
    next
      fix r assume r: "r \<in> set repos" and kp: "kept lower r repos"
        and d: "duplicated lower r repos"
      then show "platform r \<noteq> None"
        using cond [OF r] by (auto simp: duplicated_def kept_def)
    qed
  next
    assume sp: "?S \<and> ?P"
    show "\<forall>k\<in>set (repo_keys lower repos). \<exists>r. select_group (group_of lower k repos) = Inr r"
    proof
      fix k assume k: "k \<in> set (repo_keys lower repos)"
      let ?g = "group_of lower k repos"
      have ne: "?g \<noteq> []" using k by (rule group_of_nonempty)
      have same: "key_group lower x repos = ?g" if "x \<in> set ?g" for x
        using that by (simp add: group_member key_group_is_group)
      have "length ?g = 1
            \<or> (\<forall>x\<in>set ?g. stars x \<noteq> None) \<and> (\<forall>b. first_greatest ?g b \<longrightarrow> platform b \<noteq> None)"
      proof (cases "length ?g = 1")
        case True
        then show ?thesis by simp
      next
        case False
        then have long: "1 < length ?g" using ne by (cases ?g) auto
        have "stars x \<noteq> None" if "x \<in> set ?g" for x
        proof -
          have "x \<in> set repos" using that by (simp add: group_member)
          moreover have "duplicated lower x repos"
            using long same [OF that] by (simp add: duplicated_def)
          ultimately show ?thesis using sp by blast
        qed
        moreover have "platform b \<noteq> None" if "first_greatest ?g b" for b
        proof -
          have m: "b \<in> set ?g" using that by (rule first_greatest_member)
          then have "b \<in> set repos" by (simp add: group_member)
          moreover have "duplicated lower b repos"
            using long same [OF m] by (simp add: duplicated_def)
          moreover have "kept lower b repos"
            using that same [OF m] by (simp add: kept_def)
          ultimately show ?thesis using sp by blast
        qed
        ultimately show ?thesis by blast
      qed
      then show "\<exists>r. select_group ?g = Inr r"
        using select_group_Inr_iff [OF ne] by simp
    qed
  qed
  have "(\<forall>r\<in>set repos. \<exists>k. repo_key lower r = Inr k) \<longleftrightarrow> ?K"
    by (simp add: key_bridge_ex)
  then show ?thesis
    using deduplicate_repos_returns_groups [of lower repos] groups by blast
qed

lemma keys_of_selected:
  assumes "list_all2 (\<lambda>k r. select_group (group_of lower k repos) = Inr r) ks out"
  shows "map (normalized_key lower) out = map Some ks"
    and "list_all2 (\<lambda>k r. first_greatest (group_of lower k repos) r) ks out"
    and "set out \<subseteq> set repos"
proof -
  have each: "first_greatest (group_of lower k repos) r \<and> normalized_key lower r = Some k
                \<and> r \<in> set repos"
    if "select_group (group_of lower k repos) = Inr r" for k r
  proof -
    have f: "first_greatest (group_of lower k repos) r"
      using that by (rule select_group_first_greatest)
    then have "r \<in> set (group_of lower k repos)" by (rule first_greatest_member)
    then show ?thesis using f by (simp add: group_member)
  qed
  show "list_all2 (\<lambda>k r. first_greatest (group_of lower k repos) r) ks out"
    using assms each by (auto elim: list_all2_mono)
  have "list_all2 (\<lambda>k r. normalized_key lower r = Some k) ks out"
    using assms each by (auto elim: list_all2_mono)
  then show "map (normalized_key lower) out = map Some ks"
    by (induction rule: list_all2_induct) simp_all
  have "list_all2 (\<lambda>k r. r \<in> set repos) ks out"
    using assms each by (auto elim: list_all2_mono)
  then show "set out \<subseteq> set repos"
    by (induction rule: list_all2_induct) simp_all
qed

lemma deduplicate_repos_result:
  assumes "deduplicate_repos lower repos = Inr out"
  shows "map (normalized_key lower) out = first_occurrences (map (normalized_key lower) repos)"
    and "list_all2 (\<lambda>k r. first_greatest (filter (\<lambda>x. normalized_key lower x = k) repos) r)
           (first_occurrences (map (normalized_key lower) repos)) out"
    and "set out \<subseteq> set repos"
    and "distinct (map (normalized_key lower) out)"
    and "\<forall>r\<in>set out. normalized_key lower r \<noteq> None"
proof -
  note d = deduplicate_repos_Inr [OF assms]
  note k = keys_of_selected [OF d(1)]
  have keys: "\<forall>r\<in>set repos. normalized_key lower r \<noteq> None"
    using d(2) by (simp add: key_bridge_ex)
  have fo: "first_occurrences (map (normalized_key lower) repos)
              = map Some (first_occurrences (repo_keys lower repos))"
    by (simp only: normalized_keys_map [OF keys] first_occurrences_map_Some)
  show 1: "map (normalized_key lower) out
             = first_occurrences (map (normalized_key lower) repos)"
    by (simp only: k(1) fo)
  show "list_all2 (\<lambda>k r. first_greatest (filter (\<lambda>x. normalized_key lower x = k) repos) r)
           (first_occurrences (map (normalized_key lower) repos)) out"
    using k(2) by (simp add: fo list_all2_map1 group_of_normalized)
  show "set out \<subseteq> set repos" by (rule k(3))
  show "distinct (map (normalized_key lower) out)" by (simp add: 1)
  show "\<forall>r\<in>set out. normalized_key lower r \<noteq> None"
  proof
    fix r assume "r \<in> set out"
    then have "normalized_key lower r \<in> set (map (normalized_key lower) out)" by simp
    then show "normalized_key lower r \<noteq> None" unfolding k(1) by auto
  qed
qed

text \<open>
  C2. Deduplication groups the records by the normalized key
  \<open>lower owner @ ''/'' @ lower name\<close>. What it returns has one record for each key of the
  input, in the order in which the keys first occur; the record kept for a key is a record
  of the input, unchanged, namely the member of the key's group with the greatest \<open>stars\<close>,
  the first of them when several have the greatest value; the other members are not in the
  result. It returns exactly when every record has an owner and a name, every record that
  shares its key with another one has \<open>stars\<close>, and the record kept from such a group has
  a \<open>platform\<close>.
\<close>

theorem deduplicate_repos_keeps_greatest:
  "((\<exists>res. deduplicate_repos lower repos = Inr res) \<longleftrightarrow>
      (\<forall>r\<in>set repos. normalized_key lower r \<noteq> None)
      \<and> (\<forall>r\<in>set repos. duplicated lower r repos \<longrightarrow> stars r \<noteq> None)
      \<and> (\<forall>r\<in>set repos. kept lower r repos \<longrightarrow> duplicated lower r repos \<longrightarrow> platform r \<noteq> None))
   \<and> (deduplicate_repos lower repos = Inr out \<longrightarrow>
        map (normalized_key lower) out = first_occurrences (map (normalized_key lower) repos)
        \<and> distinct (map (normalized_key lower) out)
        \<and> (\<forall>r\<in>set out. normalized_key lower r \<noteq> None)
        \<and> set out \<subseteq> set repos
        \<and> list_all2
             (\<lambda>k r. first_greatest (filter (\<lambda>x. normalized_key lower x = k) repos) r)
             (first_occurrences (map (normalized_key lower) repos)) out)"
proof (intro conjI impI)
  show "(\<exists>res. deduplicate_repos lower repos = Inr res) \<longleftrightarrow>
      (\<forall>r\<in>set repos. normalized_key lower r \<noteq> None)
      \<and> (\<forall>r\<in>set repos. duplicated lower r repos \<longrightarrow> stars r \<noteq> None)
      \<and> (\<forall>r\<in>set repos. kept lower r repos \<longrightarrow> duplicated lower r repos \<longrightarrow> platform r \<noteq> None)"
    by (rule deduplicate_repos_returns_iff)
next
  assume a: "deduplicate_repos lower repos = Inr out"
  note r = deduplicate_repos_result [OF a]
  show "map (normalized_key lower) out = first_occurrences (map (normalized_key lower) repos)"
    by (rule r(1))
  show "distinct (map (normalized_key lower) out)" by (rule r(4))
  show "\<forall>r\<in>set out. normalized_key lower r \<noteq> None" by (rule r(5))
  show "set out \<subseteq> set repos" by (rule r(3))
  show "list_all2
             (\<lambda>k r. first_greatest (filter (\<lambda>x. normalized_key lower x = k) repos) r)
             (first_occurrences (map (normalized_key lower) repos)) out"
    by (rule r(2))
qed

lemma repo_keys_map:
  "\<forall>r\<in>set rs. \<exists>k. repo_key lower r = Inr k \<Longrightarrow> map (repo_key lower) rs = map Inr (repo_keys lower rs)"
  by (induction rs) (auto simp: repo_keys_def)

lemma repo_keys_Cons:
  "repo_key lower r = Inr k \<Longrightarrow> repo_keys lower (r # rs) = k # repo_keys lower rs"
  by (simp add: repo_keys_def)

lemma singleton_groups:
  assumes "\<forall>r\<in>set rs. \<exists>k. repo_key lower r = Inr k" "distinct (map (repo_key lower) rs)"
  shows "map (\<lambda>k. group_of lower k rs) (repo_keys lower rs) = map (\<lambda>r. [r]) rs"
  using assms
proof (induction rs)
  case Nil
  then show ?case by (simp add: repo_keys_def)
next
  case (Cons r rs)
  then obtain k where k: "repo_key lower r = Inr k" by auto
  have "Inr k \<notin> repo_key lower ` set rs" using Cons.prems(2) k by simp
  then have new: "k \<notin> set (repo_keys lower rs)"
    by (force simp: set_repo_keys)
  have a: "group_of lower k (r # rs) = [r]"
    using group_of_empty [OF new] by (simp add: group_of_def k)
  have b: "map (\<lambda>k'. group_of lower k' (r # rs)) (repo_keys lower rs) = map (\<lambda>k'. group_of lower k' rs) (repo_keys lower rs)"
    by (rule map_cong) (use new k in \<open>auto simp: group_of_def\<close>)
  show ?case using Cons a b by (simp add: repo_keys_Cons [OF k])
qed

lemma select_groups_singletons:
  "select_groups (map (\<lambda>p. (fst p, [snd p])) krs) acc = Inr (acc @ map snd krs)"
  by (induction krs arbitrary: acc) (simp_all add: select_group_def)

lemma deduplicate_repos_distinct_keys:
  assumes "\<forall>r\<in>set repos. \<exists>k. repo_key lower r = Inr k" "distinct (map (repo_key lower) repos)"
  shows "deduplicate_repos lower repos = Inr repos"
proof -
  have b: "build_groups lower repos [] = Inr (groups_spec lower repos)"
    using build_groups_spec [of lower repos "[]"] assms(1)
    by (simp only: if_P groups_spec_Nil append_Nil)
  have "distinct (map Inr (repo_keys lower repos) :: (error + string) list)"
    using assms by (simp add: repo_keys_map)
  then have d: "distinct (repo_keys lower repos)" by (simp add: distinct_map)
  have len: "length (repo_keys lower repos) = length repos"
    using arg_cong [OF repo_keys_map [OF assms(1)], of length] by simp
  have "groups_spec lower repos = map (\<lambda>k. (k, group_of lower k repos)) (repo_keys lower repos)"
    by (simp add: groups_spec_def first_occurrences_distinct [OF d])
  also have "\<dots> = zip (repo_keys lower repos) (map (\<lambda>k. group_of lower k repos) (repo_keys lower repos))"
    by (simp add: zip_map2 zip_same_conv_map)
  also have "\<dots> = zip (repo_keys lower repos) (map (\<lambda>r. [r]) repos)"
    by (simp only: singleton_groups [OF assms])
  also have "\<dots> = map (\<lambda>p. (fst p, [snd p])) (zip (repo_keys lower repos) repos)"
    by (simp add: zip_map2 case_prod_beta)
  finally have g: "groups_spec lower repos = map (\<lambda>p. (fst p, [snd p])) (zip (repo_keys lower repos) repos)" .
  have "select_groups (groups_spec lower repos) [] = Inr ([] @ map snd (zip (repo_keys lower repos) repos))"
    unfolding g by (rule select_groups_singletons)
  then show ?thesis using len by (simp add: deduplicate_repos_def b)
qed

lemma deduplicate_repos_distinct:
  assumes "\<forall>r\<in>set repos. normalized_key lower r \<noteq> None"
    "distinct (map (normalized_key lower) repos)"
  shows "deduplicate_repos lower repos = Inr repos"
proof -
  have keys: "\<forall>r\<in>set repos. \<exists>k. repo_key lower r = Inr k"
    using assms(1) by (simp add: key_bridge_ex)
  have "distinct (map Some (repo_keys lower repos))"
    using assms(2) by (simp only: normalized_keys_map [OF assms(1)])
  then have "distinct (repo_keys lower repos)" by (simp add: distinct_map)
  then have "distinct (map Inr (repo_keys lower repos) :: (error + string) list)"
    by (simp add: distinct_map)
  then have "distinct (map (repo_key lower) repos)"
    by (simp only: repo_keys_map [OF keys])
  with keys show ?thesis by (rule deduplicate_repos_distinct_keys)
qed

text \<open>
  C9. On a list whose records have pairwise different normalized keys, deduplication
  returns the list itself; so deduplicating the result of a deduplication changes nothing.
\<close>

theorem deduplicate_repos_idempotent:
  "((\<forall>r\<in>set repos. normalized_key lower r \<noteq> None)
      \<and> distinct (map (normalized_key lower) repos)
      \<longrightarrow> deduplicate_repos lower repos = Inr repos)
   \<and> (deduplicate_repos lower repos = Inr out \<longrightarrow> deduplicate_repos lower out = Inr out)"
proof (intro conjI impI)
  assume "(\<forall>r\<in>set repos. normalized_key lower r \<noteq> None)
      \<and> distinct (map (normalized_key lower) repos)"
  then show "deduplicate_repos lower repos = Inr repos"
    by (simp add: deduplicate_repos_distinct)
next
  assume a: "deduplicate_repos lower repos = Inr out"
  note r = deduplicate_repos_result [OF a]
  show "deduplicate_repos lower out = Inr out"
    using r(5) r(4) by (rule deduplicate_repos_distinct)
qed

lemma ascii_lower_examples:
  "ascii_lower ''XBMC'' = ''xbmc''" "ascii_lower ''xbmc'' = ''xbmc''"
  "ascii_lower ''kodi'' = ''kodi''" "ascii_lower ''skin'' = ''skin''"
  by (simp_all add: ascii_lower_def ascii_lower_char_def char_of_def bit_0)

lemma example_keys:
  "repo_key ascii_lower example_repo = Inr ''xbmc/xbmc''"
  "repo_key ascii_lower example_duplicate = Inr ''xbmc/xbmc''"
  "repo_key ascii_lower example_new_repo = Inr ''kodi/skin''"
  by (simp_all add: repo_key_def example_repo_def example_duplicate_def example_new_repo_def
      ascii_lower_examples)

lemma example_normalized_keys:
  "normalized_key ascii_lower example_repo = Some ''xbmc/xbmc''"
  "normalized_key ascii_lower example_duplicate = Some ''xbmc/xbmc''"
  "normalized_key ascii_lower example_new_repo = Some ''kodi/skin''"
  using example_keys by (simp_all add: key_bridge)

lemma example_deduplicated:
  "deduplicate_repos ascii_lower [example_duplicate, example_repo, example_new_repo]
     = Inr [example_repo, example_new_repo]"
proof -
  have s: "stars example_duplicate = Some 200" "stars example_repo = Some 500"
    "platform example_repo = Some ''github''"
    by (simp_all add: example_repo_def example_duplicate_def)
  show ?thesis
    by (simp add: deduplicate_repos_def example_keys select_group_def s)
qed

theorem deduplicate_repos_keeps_greatest_witness:
  "deduplicate_repos ascii_lower [example_duplicate, example_repo, example_new_repo]
     = Inr [example_repo, example_new_repo]
   \<and> map (normalized_key ascii_lower) [example_repo, example_new_repo]
       = [Some ''xbmc/xbmc'', Some ''kodi/skin'']
   \<and> first_occurrences
         (map (normalized_key ascii_lower) [example_duplicate, example_repo, example_new_repo])
       = [Some ''xbmc/xbmc'', Some ''kodi/skin'']
   \<and> first_greatest [example_duplicate, example_repo] example_repo
   \<and> first_greatest [example_new_repo] example_new_repo"
proof -
  note t = deduplicate_repos_keeps_greatest
    [where lower = ascii_lower
       and repos = "[example_duplicate, example_repo, example_new_repo]"
       and out = "[example_repo, example_new_repo]"]
  have d: "example_duplicate \<noteq> example_repo" "example_new_repo \<noteq> example_repo"
    by (simp_all add: example_duplicate_def example_repo_def example_new_repo_def)
  have fo: "first_occurrences
         (map (normalized_key ascii_lower) [example_duplicate, example_repo, example_new_repo])
       = [Some ''xbmc/xbmc'', Some ''kodi/skin'']"
    by (simp add: example_normalized_keys first_occurrences_def)
  from t example_deduplicated
  have "list_all2
          (\<lambda>k r. first_greatest
                   (filter (\<lambda>x. normalized_key ascii_lower x = k)
                      [example_duplicate, example_repo, example_new_repo]) r)
          (first_occurrences
             (map (normalized_key ascii_lower)
                [example_duplicate, example_repo, example_new_repo]))
          [example_repo, example_new_repo]"
    by blast
  then have "list_all2
          (\<lambda>k r. first_greatest
                   (filter (\<lambda>x. normalized_key ascii_lower x = k)
                      [example_duplicate, example_repo, example_new_repo]) r)
          [Some ''xbmc/xbmc'', Some ''kodi/skin''] [example_repo, example_new_repo]"
    by (simp only: fo)
  then have "first_greatest [example_duplicate, example_repo] example_repo
             \<and> first_greatest [example_new_repo] example_new_repo"
    by (simp add: example_normalized_keys)
  then show ?thesis
    using example_deduplicated fo by (simp add: example_normalized_keys)
qed

theorem deduplicate_repos_idempotent_witness:
  "deduplicate_repos ascii_lower [example_repo, example_new_repo]
     = Inr [example_repo, example_new_repo]"
  using deduplicate_repos_idempotent
      [where lower = ascii_lower and repos = "[example_repo, example_new_repo]"]
  by (simp add: example_normalized_keys)

section \<open>Properties of the aggregation\<close>

lemma merge_social_cases:
  "merge_social reddit_data rss_data r
     = (case repo_url r of
          None \<Rightarrow> Inl (KeyError ''repo_url'')
        | Some url \<Rightarrow>
            Inr (r\<lparr>reddit_mentions :=
                     Some (case reddit_data url of None \<Rightarrow> 0
                           | Some m \<Rightarrow> dict_get (rm_reddit_mentions m) 0),
                   reddit_upvotes :=
                     Some (case reddit_data url of None \<Rightarrow> 0
                           | Some m \<Rightarrow> dict_get (rm_reddit_upvotes m) 0),
                   recent_mentions_30d :=
                     Some (case reddit_data url of None \<Rightarrow> 0
                           | Some m \<Rightarrow> dict_get (rm_recent_mentions_30d m) 0),
                   web_mentions :=
                     Some (case rss_data url of None \<Rightarrow> 0
                           | Some m \<Rightarrow> dict_get (rs_web_mentions m) 0)\<rparr>))"
proof (cases "repo_url r")
  case None
  then show ?thesis by (simp add: merge_social_def)
next
  case (Some url)
  show ?thesis
  proof (cases "reddit_data url")
    case None
    then show ?thesis
      by (cases "rss_data url") (simp_all add: merge_social_def Some Let_def)
  next
    case m: (Some m)
    then show ?thesis
      by (cases "rss_data url") (simp_all add: merge_social_def Some Let_def)
  qed
qed


lemma merge_social_error:
  "merge_social reddit_data rss_data r = Inl e \<Longrightarrow> e = KeyError ''repo_url''"
  by (simp add: merge_social_cases split: option.splits)

lemma merge_social_total:
  "repo_url r \<noteq> None \<Longrightarrow> \<exists>r'. merge_social reddit_data rss_data r = Inr r'"
  by (simp add: merge_social_cases split: option.splits)

lemma merge_loop_Inr:
  "merge_loop reddit_data rss_data rs = Inr out
     \<Longrightarrow> list_all2 (\<lambda>r r'. merge_social reddit_data rss_data r = Inr r') rs out"
proof (induction rs arbitrary: out)
  case Nil
  then show ?case by simp
next
  case (Cons r rs)
  then show ?case by (auto split: sum.splits)
qed

lemma merge_loop_error:
  "merge_loop reddit_data rss_data rs = Inl e \<Longrightarrow> e = KeyError ''repo_url''"
proof (induction rs)
  case Nil
  then show ?case by simp
next
  case (Cons r rs)
  then show ?case by (auto split: sum.splits dest: merge_social_error)
qed

lemma merge_loop_total:
  "\<forall>r\<in>set rs. repo_url r \<noteq> None \<Longrightarrow> \<exists>out. merge_loop reddit_data rss_data rs = Inr out"
proof (induction rs)
  case Nil
  then show ?case by simp
next
  case (Cons r rs)
  then obtain r' out where "merge_social reddit_data rss_data r = Inr r'"
    "merge_loop reddit_data rss_data rs = Inr out"
    using merge_social_total [of r reddit_data rss_data] by auto
  then show ?case by simp
qed


lemma deduplicate_repos_kept:
  assumes "deduplicate_repos lower repos = Inr out"
  shows "set out = {r \<in> set repos. kept lower r repos}"
proof -
  note d = deduplicate_repos_Inr [OF assms]
  note k = keys_of_selected [OF d(1)]
  have sel: "first_greatest (group_of lower k repos) b \<and> normalized_key lower b = Some k
               \<and> b \<in> set repos"
    if "select_group (group_of lower k repos) = Inr b" for k b
  proof -
    have f: "first_greatest (group_of lower k repos) b"
      using that by (rule select_group_first_greatest)
    then have "b \<in> set (group_of lower k repos)" by (rule first_greatest_member)
    then show ?thesis using f by (simp add: group_member)
  qed
  show ?thesis
  proof (intro equalityI subsetI)
    fix b assume "b \<in> set out"
    then obtain k where "select_group (group_of lower k repos) = Inr b"
      using list_all2_rhs [OF d(1)] by blast
    from sel [OF this] show "b \<in> {r \<in> set repos. kept lower r repos}"
      by (simp add: kept_def key_group_is_group)
  next
    fix r assume "r \<in> {r \<in> set repos. kept lower r repos}"
    then have r: "r \<in> set repos" and kp: "kept lower r repos" by simp_all
    obtain k where key: "normalized_key lower r = Some k"
      using d(2) r by (auto simp: key_bridge)
    have "k \<in> set (first_occurrences (repo_keys lower repos))"
      using key_in_repo_keys [OF r key] by simp
    then obtain b where b: "b \<in> set out" "select_group (group_of lower k repos) = Inr b"
      using list_all2_lhs [OF d(1)] by blast
    have "first_greatest (group_of lower k repos) r"
      using kp by (simp add: kept_def key_group_is_group [OF key])
    then have "r = b" using sel [OF b(2)] first_greatest_unique by blast
    then show "r \<in> set out" using b(1) by simp
  qed
qed

lemma merge_loop_Inr_iff:
  "(\<exists>out. merge_loop reddit_data rss_data rs = Inr out) \<longleftrightarrow> (\<forall>r\<in>set rs. repo_url r \<noteq> None)"
proof
  assume "\<exists>out. merge_loop reddit_data rss_data rs = Inr out"
  then obtain out where "merge_loop reddit_data rss_data rs = Inr out" by blast
  then have l: "list_all2 (\<lambda>r r'. merge_social reddit_data rss_data r = Inr r') rs out"
    by (rule merge_loop_Inr)
  show "\<forall>r\<in>set rs. repo_url r \<noteq> None"
  proof
    fix r assume "r \<in> set rs"
    then obtain r' where "merge_social reddit_data rss_data r = Inr r'"
      using list_all2_lhs [OF l] by blast
    then show "repo_url r \<noteq> None"
      by (auto simp: merge_social_cases split: option.splits)
  qed
next
  assume "\<forall>r\<in>set rs. repo_url r \<noteq> None"
  then show "\<exists>out. merge_loop reddit_data rss_data rs = Inr out" by (rule merge_loop_total)
qed

lemma aggregate_data_returns_iff:
  "(\<exists>out. aggregate_data lower github_repos gitlab_repos bitbucket_repos reddit_data rss_data
             = Inr out) \<longleftrightarrow>
     (\<forall>r\<in>set (github_repos @ gitlab_repos @ bitbucket_repos). normalized_key lower r \<noteq> None)
     \<and> (\<forall>r\<in>set (github_repos @ gitlab_repos @ bitbucket_repos).
           duplicated lower r (github_repos @ gitlab_repos @ bitbucket_repos) \<longrightarrow> stars r \<noteq> None)
     \<and> (\<forall>r\<in>set (github_repos @ gitlab_repos @ bitbucket_repos).
           kept lower r (github_repos @ gitlab_repos @ bitbucket_repos) \<longrightarrow>
             repo_url r \<noteq> None
             \<and> (duplicated lower r (github_repos @ gitlab_repos @ bitbucket_repos) \<longrightarrow>
                  platform r \<noteq> None))"
proof -
  let ?all = "github_repos @ gitlab_repos @ bitbucket_repos"
  let ?A = "aggregate_data lower github_repos gitlab_repos bitbucket_repos reddit_data rss_data"
  have a: "(\<exists>out. ?A = Inr out) \<longleftrightarrow>
             (\<exists>d. deduplicate_repos lower ?all = Inr d \<and> (\<forall>r\<in>set d. repo_url r \<noteq> None))"
  proof (cases "deduplicate_repos lower ?all")
    case (Inl e)
    then show ?thesis by (simp add: aggregate_data_def)
  next
    case (Inr d)
    then show ?thesis
      using merge_loop_Inr_iff [of reddit_data rss_data d] by (simp add: aggregate_data_def)
  qed
  have b: "(\<exists>d. deduplicate_repos lower ?all = Inr d \<and> (\<forall>r\<in>set d. repo_url r \<noteq> None)) \<longleftrightarrow>
             (\<exists>d. deduplicate_repos lower ?all = Inr d)
             \<and> (\<forall>r\<in>set ?all. kept lower r ?all \<longrightarrow> repo_url r \<noteq> None)"
    using deduplicate_repos_kept [of lower ?all] by blast
  show ?thesis
    unfolding a b deduplicate_repos_returns_iff by blast
qed


lemma deduplicate_repos_error:
  assumes "deduplicate_repos lower repos = Inl e"
  shows "e = KeyError ''owner'' \<or> e = KeyError ''name'' \<or> e = KeyError ''stars''
         \<or> e = KeyError ''platform''"
proof (cases "build_groups lower repos []")
  case (Inl e')
  then have "e = e'" using assms by (simp add: deduplicate_repos_def)
  then show ?thesis using build_groups_error [OF Inl] by (elim disjE) simp_all
next
  case (Inr gs)
  then have "select_groups gs [] = Inl e" using assms by (simp add: deduplicate_repos_def)
  then obtain kg where kg: "kg \<in> set gs" "select_group (snd kg) = Inl e"
    using select_groups_error by blast
  have "gs = groups_spec lower repos" using build_groups_Inr(1) [OF Inr] .
  then obtain k where "k \<in> set (repo_keys lower repos)" "kg = (k, group_of lower k repos)"
    using kg(1) by (auto simp: groups_spec_def)
  then have "snd kg \<noteq> []" using group_of_nonempty by simp
  then have "e = KeyError ''stars'' \<or> e = KeyError ''platform''"
    by (rule select_group_error [OF kg(2)])
  then show ?thesis by (elim disjE) simp_all
qed

lemma aggregate_data_error:
  assumes "aggregate_data lower github_repos gitlab_repos bitbucket_repos reddit_data rss_data = Inl e"
  shows "e = KeyError ''owner'' \<or> e = KeyError ''name'' \<or> e = KeyError ''stars''
         \<or> e = KeyError ''platform'' \<or> e = KeyError ''repo_url''"
proof (cases "deduplicate_repos lower (github_repos @ gitlab_repos @ bitbucket_repos)")
  case (Inl e')
  then have "e = e'" using assms by (simp add: aggregate_data_def)
  then show ?thesis using deduplicate_repos_error [OF Inl] by (elim disjE) simp_all
next
  case (Inr d)
  then have "merge_loop reddit_data rss_data d = Inl e"
    using assms by (simp add: aggregate_data_def)
  then have "e = KeyError ''repo_url''" by (rule merge_loop_error)
  then show ?thesis by simp
qed


lemma example_stars:
  "stars example_duplicate = Some 200" "stars example_repo = Some 500"
  "platform example_repo = Some ''github''" "stars example_no_stars = None"
  "repo_url example_repo = Some ''https://github.com/xbmc/xbmc''"
  "age_days example_no_age = None"
  "repo_key ascii_lower example_no_stars = Inr ''xbmc/xbmc''"
  "repo_key ascii_lower example_no_owner = Inl (KeyError ''owner'')"
  by (simp_all add: example_repo_def example_duplicate_def example_no_stars_def
      example_no_age_def example_no_owner_def repo_key_def ascii_lower_examples)



section \<open>Failures\<close>

text \<open>
  C5, as the specification has it: an unrecognized tier name makes the tier-ranking
  operation fail, and no other failure leaves the core. It does not hold: the name
  \<open>platinum\<close> is ranked with the weights of the new tier, and a record without \<open>age_days\<close>
  makes the classification fail.
\<close>

theorem unrecognized_tier_counterexample:
  "rank_tier [example_repo] ''platinum''
     = [example_repo\<lparr>composite_score := Some (calculate_score example_repo NEW_WEIGHTS ''platinum''),
          rank_in_tier := Some 1\<rparr>]
   \<and> classify_and_rank [example_no_age] = Inl (KeyError ''age_days'')"
  by (simp add: rank_tier_def select_weights_def sorted_reverse_def classify_and_rank_def
      example_stars)

lemma rank_tier_else:
  assumes "t \<noteq> ''established''" "t \<noteq> ''rising''"
  shows "rank_tier repos t = rank_tier repos ''new''"
proof -
  have "select_weights t = select_weights ''new''" using assms by (simp add: select_weights_def)
  moreover have "calculate_score r w t = calculate_score r w ''new''" for r w
    by (rule calculate_score_tier_name)
  ultimately show ?thesis by (simp add: rank_tier_def)
qed

text \<open>
  C5, amended. \<open>rank_tier\<close> returns a ranked list of the input's length for every tier
  name; a name other than \<open>established\<close> and \<open>rising\<close> is ranked as \<open>new\<close>. The failures of
  the core are the \<open>KeyError\<close>s of the keys read by subscript: \<open>age_days\<close> in the
  classification; \<open>owner\<close>, \<open>name\<close>, \<open>stars\<close>, \<open>platform\<close> and \<open>repo_url\<close> in the aggregation.
\<close>

theorem rank_tier_any_name:
  "(t \<noteq> ''established'' \<and> t \<noteq> ''rising'' \<longrightarrow> rank_tier repos t = rank_tier repos ''new'')
   \<and> length (rank_tier repos t) = length repos
   \<and> (classify_and_rank repos = Inl e \<longrightarrow> e = KeyError ''age_days'')
   \<and> (aggregate_data lower github_repos gitlab_repos bitbucket_repos reddit_data rss_data = Inl e' \<longrightarrow>
        e' = KeyError ''owner'' \<or> e' = KeyError ''name'' \<or> e' = KeyError ''stars''
        \<or> e' = KeyError ''platform'' \<or> e' = KeyError ''repo_url'')"
proof (intro conjI impI)
  assume "t \<noteq> ''established'' \<and> t \<noteq> ''rising''"
  then show "rank_tier repos t = rank_tier repos ''new''"
    by (elim conjE) (rule rank_tier_else)
next
  show "length (rank_tier repos t) = length repos" by (simp add: rank_tier_eq)
next
  assume "classify_and_rank repos = Inl e"
  then show "e = KeyError ''age_days''"
    by (simp add: classify_and_rank_eq split: if_splits)
next
  assume "aggregate_data lower github_repos gitlab_repos bitbucket_repos reddit_data rss_data = Inl e'"
  then show "e' = KeyError ''owner'' \<or> e' = KeyError ''name'' \<or> e' = KeyError ''stars''
        \<or> e' = KeyError ''platform'' \<or> e' = KeyError ''repo_url''"
    by (rule aggregate_data_error)
qed

theorem rank_tier_any_name_witness:
  "rank_tier [example_no_age] ''platinum'' = rank_tier [example_no_age] ''new''
   \<and> classify_and_rank [example_no_age] = Inl (KeyError ''age_days'')
   \<and> aggregate_data ascii_lower [example_no_owner] [] [] no_reddit_data no_rss_data = Inl (KeyError ''owner'')"
  using rank_tier_any_name
      [where t = "''platinum''" and repos = "[example_no_age]" and e = "KeyError ''age_days''"
         and lower = ascii_lower and github_repos = "[example_no_owner]"
         and gitlab_repos = "[]" and bitbucket_repos = "[]" and reddit_data = no_reddit_data
         and rss_data = no_rss_data and e' = "KeyError ''owner''"]
  by (simp add: classify_and_rank_def aggregate_data_def deduplicate_repos_def example_stars)

text \<open>
  C6, as the specification has it: a record that lacks a field is treated as having 0
  there, and neither the aggregator nor the classifier fails. It does not hold: a record
  without \<open>age_days\<close> ends the classification of a list, and a record without \<open>stars\<close>
  that shares its key with another one ends the aggregation.
\<close>

theorem missing_field_counterexample:
  "classify_and_rank [example_new_repo, example_no_age] = Inl (KeyError ''age_days'')
   \<and> aggregate_data ascii_lower [example_repo, example_new_repo] [example_no_stars] [] no_reddit_data no_rss_data
       = Inl (KeyError ''stars'')"
  by (simp add: classify_and_rank_def example_fields example_stars TIER_AGE_THRESHOLDS_new_def
      aggregate_data_def deduplicate_repos_def example_keys select_group_def)

lemma with_defaults_reads:
  "dict_get (stars (with_defaults r)) 0 = dict_get (stars r) 0"
  "dict_get (recent_commits_count (with_defaults r)) 0 = dict_get (recent_commits_count r) 0"
  "dict_get (reddit_mentions (with_defaults r)) 0 = dict_get (reddit_mentions r) 0"
  "dict_get (reddit_upvotes (with_defaults r)) 0 = dict_get (reddit_upvotes r) 0"
  "dict_get (recent_mentions_30d (with_defaults r)) 0 = dict_get (recent_mentions_30d r) 0"
  "dict_get (web_mentions (with_defaults r)) 0 = dict_get (web_mentions r) 0"
  "dict_get (star_velocity_30d (with_defaults r)) 0 = dict_get (star_velocity_30d r) 0"
  by (simp_all add: with_defaults_def dict_get_def)

lemma classify_and_rank_returns_iff:
  "(\<exists>res. classify_and_rank repos = Inr res) \<longleftrightarrow> (\<forall>x\<in>set repos. age_days x \<noteq> None)"
proof (cases "\<exists>x\<in>set repos. age_days x = None")
  case True
  then show ?thesis by (auto simp: classify_and_rank_eq)
next
  case False
  then show ?thesis by (auto simp: classify_and_rank_eq)
qed

text \<open>
  C6, amended. A missing field counts as 0 wherever it is read with a default: in the
  growth signals and in the score, which are those of the record with 0 stored in the
  missing counts. A missing field is a failure only where it is read by subscript: the
  classifier returns exactly when every record has \<open>age_days\<close>; the aggregator returns
  exactly when every record has \<open>owner\<close> and \<open>name\<close>, every record that shares its key with
  another one has \<open>stars\<close>, and every record that is kept has \<open>repo_url\<close> and, when its
  group has more than one member, \<open>platform\<close>. So a record alone in its group is
  aggregated without \<open>stars\<close> and \<open>platform\<close>.
\<close>

theorem missing_fields_default:
  "has_growth_signals r = has_growth_signals (with_defaults r)
   \<and> calculate_score r weights t = calculate_score (with_defaults r) weights t
   \<and> ((\<exists>res. classify_and_rank repos = Inr res) \<longleftrightarrow> (\<forall>x\<in>set repos. age_days x \<noteq> None))
   \<and> ((\<exists>res. aggregate_data lower github_repos gitlab_repos bitbucket_repos reddit_data rss_data
               = Inr res) \<longleftrightarrow>
        (\<forall>x\<in>set (github_repos @ gitlab_repos @ bitbucket_repos).
            owner x \<noteq> None \<and> name x \<noteq> None)
        \<and> (\<forall>x\<in>set (github_repos @ gitlab_repos @ bitbucket_repos).
              duplicated lower x (github_repos @ gitlab_repos @ bitbucket_repos) \<longrightarrow>
                stars x \<noteq> None)
        \<and> (\<forall>x\<in>set (github_repos @ gitlab_repos @ bitbucket_repos).
              kept lower x (github_repos @ gitlab_repos @ bitbucket_repos) \<longrightarrow>
                repo_url x \<noteq> None
                \<and> (duplicated lower x (github_repos @ gitlab_repos @ bitbucket_repos) \<longrightarrow>
                     platform x \<noteq> None)))"
proof (intro conjI)
  show "has_growth_signals r = has_growth_signals (with_defaults r)"
    by (simp add: has_growth_signals_def with_defaults_reads)
  show "calculate_score r weights t = calculate_score (with_defaults r) weights t"
    by (simp add: calculate_score_def weighted_term with_defaults_reads)
  show "(\<exists>res. classify_and_rank repos = Inr res) \<longleftrightarrow> (\<forall>x\<in>set repos. age_days x \<noteq> None)"
    by (rule classify_and_rank_returns_iff)
  have k: "normalized_key lower x \<noteq> None \<longleftrightarrow> owner x \<noteq> None \<and> name x \<noteq> None" for x
    by (simp add: normalized_key_None)
  show "(\<exists>res. aggregate_data lower github_repos gitlab_repos bitbucket_repos reddit_data rss_data
               = Inr res) \<longleftrightarrow>
        (\<forall>x\<in>set (github_repos @ gitlab_repos @ bitbucket_repos).
            owner x \<noteq> None \<and> name x \<noteq> None)
        \<and> (\<forall>x\<in>set (github_repos @ gitlab_repos @ bitbucket_repos).
              duplicated lower x (github_repos @ gitlab_repos @ bitbucket_repos) \<longrightarrow>
                stars x \<noteq> None)
        \<and> (\<forall>x\<in>set (github_repos @ gitlab_repos @ bitbucket_repos).
              kept lower x (github_repos @ gitlab_repos @ bitbucket_repos) \<longrightarrow>
                repo_url x \<noteq> None
                \<and> (duplicated lower x (github_repos @ gitlab_repos @ bitbucket_repos) \<longrightarrow>
                     platform x \<noteq> None))"
    unfolding aggregate_data_returns_iff k ..
qed

lemma example_lone_fields:
  "normalized_key ascii_lower example_lone_repo = Some ''kodi/skin''"
  "owner example_lone_repo \<noteq> None" "name example_lone_repo \<noteq> None"
  "repo_url example_lone_repo \<noteq> None" "stars example_lone_repo = None"
  "platform example_lone_repo = None" "age_days example_lone_repo \<noteq> None"
  "owner example_repo \<noteq> None" "name example_repo \<noteq> None" "repo_url example_repo \<noteq> None"
  "platform example_repo \<noteq> None" "stars example_repo \<noteq> None" "age_days example_repo \<noteq> None"
  by (simp_all add: example_lone_repo_def example_new_repo_def example_repo_def
      normalized_key_def ascii_lower_examples)

theorem missing_fields_default_witness:
  "stars example_lone_repo = None \<and> platform example_lone_repo = None
   \<and> (\<exists>res. aggregate_data ascii_lower [example_repo] [example_lone_repo] []
               no_reddit_data no_rss_data = Inr res)
   \<and> (\<exists>res. classify_and_rank [example_repo, example_lone_repo] = Inr res)
   \<and> calculate_score example_lone_repo NEW_WEIGHTS ''new''
       = calculate_score (with_defaults example_lone_repo) NEW_WEIGHTS ''new''"
proof -
  note t = missing_fields_default
    [where r = example_lone_repo and weights = NEW_WEIGHTS and t = "''new''"
       and repos = "[example_repo, example_lone_repo]" and lower = ascii_lower
       and github_repos = "[example_repo]" and gitlab_repos = "[example_lone_repo]"
       and bitbucket_repos = "[]" and reddit_data = no_reddit_data and rss_data = no_rss_data]
  have alone: "\<not> duplicated ascii_lower example_lone_repo [example_repo, example_lone_repo]"
    by (simp add: duplicated_def key_group_def example_lone_fields example_normalized_keys)
  have "\<exists>res. aggregate_data ascii_lower [example_repo] [example_lone_repo] []
               no_reddit_data no_rss_data = Inr res"
    using t alone by (simp add: example_lone_repo_def example_new_repo_def example_repo_def)
  moreover have "\<exists>res. classify_and_rank [example_repo, example_lone_repo] = Inr res"
    using t by (simp add: example_lone_repo_def example_new_repo_def example_repo_def)
  moreover have "calculate_score example_lone_repo NEW_WEIGHTS ''new''
       = calculate_score (with_defaults example_lone_repo) NEW_WEIGHTS ''new''"
    using t by (elim conjE)
  ultimately show ?thesis by (simp add: example_lone_fields)
qed

end
